theory Spec2Isabelle
  imports Complex_Main "HOL-Library.Sublist" "HOL-Library.Signed_Division"
begin

section \<open>Time and durations\<close>

text \<open>
  A \<open>time.Time\<close> is an instant; the model keeps it as the number of nanoseconds since
  the Unix epoch. A \<open>time.Duration\<close> is an int64 count of nanoseconds.
  \<open>Time.Sub\<close> saturates at the smallest and largest Duration, \<open>Time.After\<close> and
  \<open>Time.Before\<close> are strict comparisons of instants.
\<close>

type_synonym time = int
type_synonym Duration = int

definition minDuration :: Duration where
  "minDuration = - (2 ^ 63)"

definition maxDuration :: Duration where
  "maxDuration = 2 ^ 63 - 1"

definition Second :: Duration where
  "Second = 1000000000"

definition time_Sub :: "time \<Rightarrow> time \<Rightarrow> Duration" where
  "time_Sub t u =
     (let d = t - u
      in if d < minDuration then minDuration
         else if maxDuration < d then maxDuration
         else d)"

definition time_After :: "time \<Rightarrow> time \<Rightarrow> bool" where
  "time_After t u = (u < t)"

definition time_Before :: "time \<Rightarrow> time \<Rightarrow> bool" where
  "time_Before t u = (t < u)"

definition time_Add :: "time \<Rightarrow> Duration \<Rightarrow> time" where
  "time_Add t d = t + d"

text \<open>Addition of two int64 values wraps around.\<close>

definition wrap64 :: "int \<Rightarrow> int" where
  "wrap64 x = signed_take_bit 63 x"

text \<open>
  \<open>time.Unix(sec, 0)\<close> keeps the instant as an int64 count of seconds since the year 1,
  \<open>sec + unixToInternal\<close>, and that addition wraps: for \<open>sec\<close> within
  \<open>unixToInternal\<close> of the largest int64 the instant lies far in the past.
\<close>

definition unixToInternal :: int where
  "unixToInternal = 62135596800"

definition time_Unix :: "int \<Rightarrow> time" where
  "time_Unix sec = (wrap64 (sec + unixToInternal) - unixToInternal) * Second"

section \<open>Data model\<close>

record Commit =
  Hash :: string
  When :: time
  Message :: string

text \<open>
  Modelled from the spec: the declaration of \<open>ReleaseSource\<close> is not among the
  sources. The spec describes it as a tag paired with the commit it points to; the code
  reads the short name of the tag and, of the commit, its hash, its committer time and
  its message.
\<close>

record ReleaseSource =
  tag :: string
  commit :: Commit

text \<open>
  Modelled from the spec: the declaration of \<open>ReleaseResult\<close> is not among the
  sources. The spec gives it a boolean \<open>isSuccess\<close> and an optional duration
  \<open>timeToRestore\<close>; the code stores a pointer to a Duration there, nil until it is
  set.
\<close>

record ReleaseResult =
  IsSuccess :: bool
  TimeToRestore :: "Duration option"

record Release =
  Tag :: string
  Date :: time
  LeadTimeForChanges :: Duration
  Result :: ReleaseResult

text \<open>
  A compiled \<open>*regexp.Regexp\<close> is used through \<open>MatchString\<close> only, so a pattern is
  the predicate it decides; a nil pattern is \<open>None\<close>. The option itself is passed as
  a pointer that may be nil. The timer and debug hooks have no effect on the result and
  are left out.
\<close>

record Option =
  Since :: time
  Until :: time
  IgnorePattern :: "(string \<Rightarrow> bool) option"
  FixCommitPattern :: "(string \<Rightarrow> bool) option"
  IsLocalRepository :: bool

datatype panic = IndexOutOfRange

section \<open>Option predicates\<close>

fun Contains :: "string \<Rightarrow> string \<Rightarrow> bool" where
  "Contains [] substr = (substr = [])"
| "Contains (c # cs) substr = (prefix substr (c # cs) \<or> Contains cs substr)"

definition isInTimeRange :: "Option option \<Rightarrow> time \<Rightarrow> bool" where
  "isInTimeRange option t =
     (case option of
        None \<Rightarrow> True
      | Some o' \<Rightarrow> time_After t (Since o') \<and> time_Before t (Until o'))"

definition shouldIgnore :: "Option option \<Rightarrow> string \<Rightarrow> bool" where
  "shouldIgnore option name =
     (case option of
        None \<Rightarrow> False
      | Some o' \<Rightarrow> (case IgnorePattern o' of None \<Rightarrow> False | Some p \<Rightarrow> p name))"

definition isFixedCommit :: "Option option \<Rightarrow> string \<Rightarrow> bool" where
  "isFixedCommit option commitMessage =
     (case option of
        None \<Rightarrow> Contains commitMessage ''hotfix''
      | Some o' \<Rightarrow>
          (case FixCommitPattern o' of
             None \<Rightarrow> Contains commitMessage ''hotfix''
           | Some p \<Rightarrow> p commitMessage))"

section \<open>Traversal by the local git command\<close>

text \<open>
  The command is \<open>git log --since S --format="%ct %s" --date-order HASH\<close>. Its first
  argument is the literal \<open>1900-01-01\<close> when the source has no successor in the list,
  and otherwise the committer time of the next source plus one second. The result of
  running it is either an error (non-zero exit, missing binary) or the lines that the
  line scanner reads from its standard output.
\<close>

datatype git_since = Since1900 | SinceTime time

datatype cmd_result = CmdErr | Output "string list"

type_synonym git_log = "git_since \<Rightarrow> string \<Rightarrow> cmd_result"

definition is_digit :: "char \<Rightarrow> bool" where
  "is_digit c = (let n = (of_char c :: nat) in 48 \<le> n \<and> n \<le> 57)"

text \<open>
  \<open>FindStringSubmatch\<close> for the pattern \<open>^[^\d]+(\d+) \<close>: the line has to start with
  at least one character that is not a digit, followed by at least one digit, followed
  by a space. Both repetitions are forced to be maximal (the first must be followed by a
  digit, the second by a space), so the captured group is the whole first run of digits.
  The result is \<open>None\<close> where Go returns a nil slice.
\<close>

definition FindStringSubmatch :: "string \<Rightarrow> string option" where
  "FindStringSubmatch line =
     (let pre = takeWhile (\<lambda>c. \<not> is_digit c) line;
          rest = dropWhile (\<lambda>c. \<not> is_digit c) line;
          ds = takeWhile is_digit rest;
          after = dropWhile is_digit rest
      in if pre \<noteq> [] \<and> ds \<noteq> [] \<and> take 1 after = '' '' then Some ds else None)"

definition digit_val :: "char \<Rightarrow> int" where
  "digit_val c = of_char c - 48"

definition decimal :: "string \<Rightarrow> int" where
  "decimal ds = foldl (\<lambda>acc c. acc * 10 + digit_val c) 0 ds"

text \<open>
  \<open>strconv.ParseInt(s, 10, 64)\<close> on a run of digits, which is all the caller passes
  (the group captured by the pattern): the value, or an error when it does not fit an
  int64. Signs are not treated.
\<close>

definition ParseInt :: "string \<Rightarrow> int option" where
  "ParseInt ds =
     (if ds \<noteq> [] \<and> list_all is_digit ds \<and> decimal ds \<le> maxDuration
      then Some (decimal ds) else None)"

text \<open>The scanning loop keeps whether some line matched and the last line read.\<close>

definition scan_lines :: "Option option \<Rightarrow> string list \<Rightarrow> bool \<times> string" where
  "scan_lines option lines =
     foldl (\<lambda>(restoresPreRelease, lastLine) line.
              (if isFixedCommit option line then True else restoresPreRelease, line))
       (False, '''') lines"

definition local_since :: "ReleaseSource list \<Rightarrow> nat \<Rightarrow> git_since" where
  "local_since sources i =
     (if int i < int (length sources) - 1
      then SinceTime (time_Add (When (commit (sources ! (i + 1)))) Second)
      else Since1900)"

definition getIsRestoredAndLeadTimeForChangesByLocalGit ::
  "git_log \<Rightarrow> ReleaseSource list \<Rightarrow> nat \<Rightarrow> Option option \<Rightarrow> panic + (bool \<times> Duration)" where
  "getIsRestoredAndLeadTimeForChangesByLocalGit git sources i option =
     (if \<not> i < length sources then Inl IndexOutOfRange
      else
        let source = sources ! i;
            since = local_since sources i
        in case git since (Hash (commit source)) of
             CmdErr \<Rightarrow> Inr (False, 0)
           | Output lines \<Rightarrow>
               (let (restoresPreRelease, lastLine) = scan_lines option lines
                in if lastLine \<noteq> ''''
                   then (case FindStringSubmatch lastLine of
                           None \<Rightarrow> Inl IndexOutOfRange
                         | Some unixtimeString \<Rightarrow>
                             (case ParseInt unixtimeString of
                                None \<Rightarrow> Inr (restoresPreRelease, 0)
                              | Some unixtimeInt \<Rightarrow>
                                  Inr (restoresPreRelease,
                                       time_Sub (When (commit source)) (time_Unix unixtimeInt))))
                   else Inr (restoresPreRelease, 0)))"

section \<open>Traversal by go-git\<close>

text \<open>
  \<open>traverseCommits\<close> is not among the sources and is a parameter here. It is given
  the commit of the next source (nil when there is none) and the commit of this source,
  and calls the callback on commits in turn. The callback used here never fails, so a
  run of \<open>traverseCommits\<close> is the list of commits it visited, in order, and whether
  it returned an error.
\<close>

type_synonym traverse = "Commit option \<Rightarrow> Commit \<Rightarrow> Commit list \<times> bool"

definition visit_commits :: "Option option \<Rightarrow> Commit list \<Rightarrow> bool \<times> Commit option" where
  "visit_commits option cs =
     foldl (\<lambda>(restoresPreRelease, lastCommit) c.
              (if isFixedCommit option (Message c) then True else restoresPreRelease, Some c))
       (False, None) cs"

definition preReleaseCommit_of :: "ReleaseSource list \<Rightarrow> nat \<Rightarrow> Commit option" where
  "preReleaseCommit_of sources i =
     (if int i < int (length sources) - 1 then Some (commit (sources ! (i + 1))) else None)"

definition getIsRestoredAndLeadTimeForChangesByGoGit ::
  "traverse \<Rightarrow> ReleaseSource list \<Rightarrow> nat \<Rightarrow> Option option \<Rightarrow> panic + (bool \<times> Duration)" where
  "getIsRestoredAndLeadTimeForChangesByGoGit traverseCommits sources i option =
     (if \<not> i < length sources then Inl IndexOutOfRange
      else
        let source = sources ! i;
            (visited, err) = traverseCommits (preReleaseCommit_of sources i) (commit source);
            (restoresPreRelease, lastCommit) = visit_commits option visited
        in case lastCommit of
             Some c \<Rightarrow>
               if \<not> err
               then Inr (restoresPreRelease, time_Sub (When (commit source)) (When c))
               else Inr (restoresPreRelease, 0)
           | None \<Rightarrow> Inr (restoresPreRelease, 0))"

section \<open>The release classifier\<close>

text \<open>
  The loop of \<open>QueryReleases\<close> runs over the release sources returned by
  \<open>getReleaseSourcesFromTags\<close>, which are taken as given, and carries the releases
  emitted so far, the index of the last emitted success and the signal returned by the
  traversal of the last emitted release. An index outside the slice panics.
  \<open>mark_success\<close> is the block run when the current release is a success: it
  writes the restore time of the streak that this release closes, if there is one, and
  records the index that this release is about to take.
\<close>

record loop_state =
  releases :: "Release list"
  nextSuccessReleaseIndex :: int
  isRestored :: bool

definition set_TimeToRestore :: "Release \<Rightarrow> Duration \<Rightarrow> Release" where
  "set_TimeToRestore r d = r\<lparr>Result := (Result r)\<lparr>TimeToRestore := Some d\<rparr>\<rparr>"

definition mark_success :: "loop_state \<Rightarrow> panic + loop_state" where
  "mark_success st =
     (let rs = releases st; n = nextSuccessReleaseIndex st
      in if length rs > 0 \<and> \<not> IsSuccess (Result (rs ! (length rs - 1)))
         then (if 0 \<le> n \<and> n < int (length rs)
               then Inr (st\<lparr>releases :=
                              rs[nat n := set_TimeToRestore (rs ! nat n)
                                   (time_Sub (Date (rs ! nat n)) (Date (rs ! (length rs - 1))))],
                            nextSuccessReleaseIndex := int (length rs)\<rparr>)
               else Inl IndexOutOfRange)
         else Inr (st\<lparr>nextSuccessReleaseIndex := int (length rs)\<rparr>))"

definition traversal ::
  "git_log \<Rightarrow> traverse \<Rightarrow> ReleaseSource list \<Rightarrow> nat \<Rightarrow> Option option \<Rightarrow> panic + (bool \<times> Duration)" where
  "traversal git traverseCommits sources i option =
     (if (case option of None \<Rightarrow> False | Some o' \<Rightarrow> IsLocalRepository o')
      then getIsRestoredAndLeadTimeForChangesByLocalGit git sources i option
      else getIsRestoredAndLeadTimeForChangesByGoGit traverseCommits sources i option)"

definition loop_body ::
  "git_log \<Rightarrow> traverse \<Rightarrow> Option option \<Rightarrow> ReleaseSource list \<Rightarrow> nat \<Rightarrow> loop_state
     \<Rightarrow> panic + loop_state" where
  "loop_body git traverseCommits option sources i st =
     (let source = sources ! i
      in if shouldIgnore option (tag source) then Inr st
         else if \<not> isInTimeRange option (When (commit source)) then Inr st
         else
           let isSuccess = \<not> isRestored st
           in case (if isSuccess then mark_success st else Inr st) of
                Inl e \<Rightarrow> Inl e
              | Inr st1 \<Rightarrow>
                  (case traversal git traverseCommits sources i option of
                     Inl e \<Rightarrow> Inl e
                   | Inr (r, leadTimeForChanges) \<Rightarrow>
                       Inr (st1\<lparr>releases := releases st1 @
                                  [\<lparr>Tag = tag source,
                                    Date = When (commit source),
                                    LeadTimeForChanges = leadTimeForChanges,
                                    Result = \<lparr>IsSuccess = isSuccess, TimeToRestore = None\<rparr>\<rparr>],
                                isRestored := r\<rparr>)))"

fun loop ::
  "git_log \<Rightarrow> traverse \<Rightarrow> Option option \<Rightarrow> ReleaseSource list \<Rightarrow> nat list \<Rightarrow> loop_state
     \<Rightarrow> panic + loop_state" where
  "loop git traverseCommits option sources [] st = Inr st"
| "loop git traverseCommits option sources (i # is) st =
     (case loop_body git traverseCommits option sources i st of
        Inl e \<Rightarrow> Inl e
      | Inr st' \<Rightarrow> loop git traverseCommits option sources is st')"

definition init_state :: loop_state where
  "init_state = \<lparr>releases = [], nextSuccessReleaseIndex = - 1, isRestored = False\<rparr>"

definition QueryReleases ::
  "git_log \<Rightarrow> traverse \<Rightarrow> Option option \<Rightarrow> ReleaseSource list \<Rightarrow> panic + Release list" where
  "QueryReleases git traverseCommits option sources =
     (case loop git traverseCommits option sources [0 ..< length sources] init_state of
        Inl e \<Rightarrow> Inl e
      | Inr st \<Rightarrow> Inr (releases st))"

section \<open>The metrics aggregator\<close>

text \<open>
  \<open>getTimeToRestoreServices\<close> walks the slice from its last index down to 0 with a
  running sum, a count and the index of the failure that opened the current streak.
\<close>

fun restore_loop :: "Release list \<Rightarrow> nat \<Rightarrow> Duration \<times> int \<times> int \<Rightarrow> Duration \<times> int \<times> int" where
  "restore_loop rs 0 st = st"
| "restore_loop rs (Suc i) (acc, countOfRestoreService, failedReleaseIndex) =
     (let release = rs ! i
      in if \<not> IsSuccess (Result release)
         then restore_loop rs i
                (acc, countOfRestoreService,
                 if failedReleaseIndex < 0 then int i else failedReleaseIndex)
         else if failedReleaseIndex < 0
         then restore_loop rs i (acc, countOfRestoreService, failedReleaseIndex)
         else restore_loop rs i
                (wrap64 (acc + time_Sub (Date release) (Date (rs ! nat failedReleaseIndex))),
                 countOfRestoreService + 1, - 1))"

definition getTimeToRestoreServices :: "Release list \<Rightarrow> Duration" where
  "getTimeToRestoreServices rs =
     (let (acc, countOfRestoreService, failedReleaseIndex) =
            restore_loop rs (length rs) (0, 0, - 1)
      in if countOfRestoreService = 0 then acc else acc sdiv countOfRestoreService)"

section \<open>Reference definitions for the classifier\<close>

text \<open>
  The indices of the sources that pass both filters, in processing order: these are the
  sources for which a release is emitted.
\<close>

definition passes :: "Option option \<Rightarrow> ReleaseSource list \<Rightarrow> nat \<Rightarrow> bool" where
  "passes option sources i =
     (\<not> shouldIgnore option (tag (sources ! i)) \<and> isInTimeRange option (When (commit (sources ! i))))"

definition emitted :: "Option option \<Rightarrow> ReleaseSource list \<Rightarrow> nat list" where
  "emitted option sources = filter (passes option sources) [0 ..< length sources]"

text \<open>
  The fix-detection signal of a source, read off the environment: some line printed by
  the git command, or the message of some commit visited by \<open>traverseCommits\<close>,
  matches the fix-commit pattern.
\<close>

definition found_fix_commit ::
  "git_log \<Rightarrow> traverse \<Rightarrow> Option option \<Rightarrow> ReleaseSource list \<Rightarrow> nat \<Rightarrow> bool" where
  "found_fix_commit git traverseCommits option sources i =
     (if (case option of None \<Rightarrow> False | Some o' \<Rightarrow> IsLocalRepository o')
      then (case git (local_since sources i) (Hash (commit (sources ! i))) of
              CmdErr \<Rightarrow> False
            | Output lines \<Rightarrow> list_ex (isFixedCommit option) lines)
      else list_ex (\<lambda>c. isFixedCommit option (Message c))
             (fst (traverseCommits (preReleaseCommit_of sources i) (commit (sources ! i)))))"

text \<open>
  The chain of verdicts: each processed source is a success exactly when the signal
  handed over by the previously processed source is false.
\<close>

fun verdicts :: "(nat \<Rightarrow> bool) \<Rightarrow> bool \<Rightarrow> nat list \<Rightarrow> bool list" where
  "verdicts f s [] = []"
| "verdicts f s (i # is) = (\<not> s) # verdicts f (f i) is"

section \<open>Example repositories\<close>

text \<open>
  Three tags, newest first, each on a commit of its own; the commit tagged \<open>v2\<close>
  carries a fix for \<open>v1\<close>. The traversal by go-git reports exactly the tagged
  commit of each release, and no git command is available.
\<close>

definition source_at :: "string \<Rightarrow> int \<Rightarrow> string \<Rightarrow> ReleaseSource" where
  "source_at name sec message =
     \<lparr>tag = name, commit = \<lparr>Hash = name, When = time_Unix sec, Message = message\<rparr>\<rparr>"

definition three_tags :: "ReleaseSource list" where
  "three_tags =
     [source_at ''v3'' 30 ''release v3'',
      source_at ''v2'' 20 ''hotfix: repair v1'',
      source_at ''v1'' 10 ''first release'']"

definition walk_tagged_commit :: traverse where
  "walk_tagged_commit preReleaseCommit c = ([c], False)"

definition git_unavailable :: git_log where
  "git_unavailable since hash = CmdErr"

definition released :: "string \<Rightarrow> int \<Rightarrow> bool \<Rightarrow> Release" where
  "released name sec ok =
     \<lparr>Tag = name, Date = time_Unix sec, LeadTimeForChanges = 0,
      Result = \<lparr>IsSuccess = ok, TimeToRestore = None\<rparr>\<rparr>"

section \<open>Reference definitions for the aggregator\<close>

text \<open>
  The closed failure-to-success transitions of a release sequence read oldest first:
  a failure opens a streak, the failures after it belong to the same streak, and the
  first success after them closes it. Each transition pairs the failure that opened the
  streak with the success that closed it; a streak that no success follows is dropped.
\<close>

function closed_transitions :: "Release list \<Rightarrow> (Release \<times> Release) list" where
  "closed_transitions [] = []"
| "closed_transitions (r # rs) =
     (if IsSuccess (Result r) then closed_transitions rs
      else (case dropWhile (\<lambda>x. \<not> IsSuccess (Result x)) rs of
              [] \<Rightarrow> []
            | s # rest \<Rightarrow> (r, s) # closed_transitions rest))"
  by pat_completeness auto
termination
proof (relation "measure length")
  fix r s :: Release and rs rest :: "Release list"
  assume "dropWhile (\<lambda>x. \<not> IsSuccess (Result x)) rs = s # rest"
  then have "length (s # rest) \<le> length rs"
    using length_dropWhile_le [of "\<lambda>x. \<not> IsSuccess (Result x)" rs] by simp
  then show "(rest, r # rs) \<in> measure length" by simp
qed auto

text \<open>The restore time of a transition: the date of the success minus the date of the failure.\<close>

definition restore_gaps :: "Release list \<Rightarrow> Duration list" where
  "restore_gaps oldest_first =
     map (\<lambda>(failed, restoring). time_Sub (Date restoring) (Date failed))
       (closed_transitions oldest_first)"

text \<open>
  The mean of a list of durations in Duration arithmetic: the sum is an int64 and wraps,
  the quotient is truncated towards zero, and the mean of no durations is 0.
\<close>

definition duration_mean :: "Duration list \<Rightarrow> Duration" where
  "duration_mean ds = (if ds = [] then 0 else wrap64 (sum_list ds) sdiv int (length ds))"

text \<open>An example sequence, newest first, with two recovered streaks.\<close>

definition outage :: "int \<Rightarrow> bool \<Rightarrow> Release" where
  "outage sec ok =
     \<lparr>Tag = ''r'', Date = time_Unix sec, LeadTimeForChanges = 0,
      Result = \<lparr>IsSuccess = ok, TimeToRestore = None\<rparr>\<rparr>"

definition two_outages :: "Release list" where
  "two_outages = [outage 30 True, outage 20 False, outage 10 False, outage 5 True, outage 1 False]"

text \<open>The failure that opened the streak the loop is in, if it is in one.\<close>

definition pending_failure :: "Release list \<Rightarrow> int \<Rightarrow> Release list" where
  "pending_failure rs failedReleaseIndex =
     (if failedReleaseIndex < 0 then [] else [rs ! nat failedReleaseIndex])"

section \<open>Reference definitions for the lead time\<close>

text \<open>
  The committer time of the last commit that the traversal of a source reports: the
  timestamp at the head of the last line printed by the git command, or the committer
  time of the last commit visited by \<open>traverseCommits\<close>. There is none when the
  command or the walk fails, when nothing is reported, or when the timestamp does not
  fit an int64. Nothing here says that the last commit reported is the oldest one.
\<close>

definition last_reported_time ::
  "git_log \<Rightarrow> traverse \<Rightarrow> Option option \<Rightarrow> ReleaseSource list \<Rightarrow> nat \<Rightarrow> time option" where
  "last_reported_time git traverseCommits option sources i =
     (if (case option of None \<Rightarrow> False | Some o' \<Rightarrow> IsLocalRepository o')
      then (case git (local_since sources i) (Hash (commit (sources ! i))) of
              CmdErr \<Rightarrow> None
            | Output lines \<Rightarrow>
                if lines = [] then None
                else (case FindStringSubmatch (last lines) of
                        None \<Rightarrow> None
                      | Some ds \<Rightarrow> map_option time_Unix (ParseInt ds)))
      else (case traverseCommits (preReleaseCommit_of sources i) (commit (sources ! i)) of
              (visited, err) \<Rightarrow>
                if err \<or> visited = [] then None else Some (When (last visited))))"

definition lead_time_of ::
  "git_log \<Rightarrow> traverse \<Rightarrow> Option option \<Rightarrow> ReleaseSource list \<Rightarrow> nat \<Rightarrow> Duration" where
  "lead_time_of git traverseCommits option sources i =
     (case last_reported_time git traverseCommits option sources i of
        None \<Rightarrow> 0
      | Some t \<Rightarrow> time_Sub (When (commit (sources ! i))) t)"

text \<open>The fields of a release that are fixed when it is emitted.\<close>

definition facts :: "Release \<Rightarrow> string \<times> time \<times> Duration" where
  "facts r = (Tag r, Date r, LeadTimeForChanges r)"

section \<open>What the git command prints\<close>

text \<open>
  With the format \<open>"%ct %s"\<close>, passed to git without a shell, each commit is
  printed as one line: a double quote, the committer time in seconds since the epoch in
  decimal, a space, the subject of the commit, and a double quote. The subject is the
  first paragraph of the message with its line breaks turned into spaces.
\<close>

definition digit_char :: "int \<Rightarrow> char" where
  "digit_char d = char_of (48 + d)"

function digits :: "int \<Rightarrow> string" where
  "digits n = (if n < 10 then [digit_char n] else digits (n div 10) @ [digit_char (n mod 10)])"
  by pat_completeness auto
termination
  by (relation "measure nat") auto

declare digits.simps [simp del]

definition show_ct :: "int \<Rightarrow> string" where
  "show_ct n = (if n < 0 then CHR ''-'' # digits (- n) else digits n)"

fun split_lines :: "string \<Rightarrow> string list" where
  "split_lines [] = [[]]"
| "split_lines (c # cs) =
     (if c = CHR 0x0A then [] # split_lines cs
      else (case split_lines cs of [] \<Rightarrow> [[c]] | l # ls \<Rightarrow> (c # l) # ls))"

fun join_lines :: "string list \<Rightarrow> string" where
  "join_lines [] = []"
| "join_lines [l] = l"
| "join_lines (l # ls) = l @ '' '' @ join_lines ls"

definition subject :: "string \<Rightarrow> string" where
  "subject message =
     join_lines (takeWhile (\<lambda>l. l \<noteq> []) (dropWhile (\<lambda>l. l = []) (split_lines message)))"

definition log_line :: "Commit \<Rightarrow> string" where
  "log_line c =
     [CHR 0x22] @ show_ct (When c div Second) @ '' '' @ subject (Message c) @ [CHR 0x22]"

section \<open>Further example repositories\<close>

text \<open>
  A query window for a local repository; a git command that prints given lines whatever
  its arguments; the history of a first release made of two commits; a line whose
  timestamp is one more than the largest int64; and a release commit whose message
  names the fix in its body only.
\<close>

definition commit_at :: "string \<Rightarrow> int \<Rightarrow> string \<Rightarrow> Commit" where
  "commit_at hash sec message = \<lparr>Hash = hash, When = time_Unix sec, Message = message\<rparr>"

definition local_option :: Option where
  "local_option =
     \<lparr>Since = time_Unix 0, Until = time_Unix 100, IgnorePattern = None,
      FixCommitPattern = None, IsLocalRepository = True\<rparr>"

definition git_prints :: "string list \<Rightarrow> git_log" where
  "git_prints lines since hash = Output lines"

definition first_release_history :: "Commit list" where
  "first_release_history = [commit_at ''v1'' 20 ''release v1'', commit_at ''c0'' 5 ''initial commit'']"

definition overflowing_line :: string where
  "overflowing_line = [CHR 0x22] @ ''9223372036854775808 hotfix: clock'' @ [CHR 0x22]"

definition body_fix_commit :: Commit where
  "body_fix_commit =
     commit_at ''v1'' 20 (''release v1'' @ [CHR 0x0A, CHR 0x0A] @ ''hotfix for the login page'')"

section \<open>Reference definitions for the range of a release\<close>

text \<open>
  The commit of the next-older release source: the next entry of the source list,
  whether or not it passes the filters. The git command is asked for the commits dated
  later than the committer time of that commit plus one second, or since 1900 when
  there is no such commit.
\<close>

definition next_older_commit :: "ReleaseSource list \<Rightarrow> nat \<Rightarrow> Commit option" where
  "next_older_commit sources i =
     (if Suc i < length sources then Some (commit (sources ! Suc i)) else None)"

definition range_since :: "ReleaseSource list \<Rightarrow> nat \<Rightarrow> git_since" where
  "range_since sources i =
     (case next_older_commit sources i of
        None \<Rightarrow> Since1900
      | Some p \<Rightarrow> SinceTime (time_Add (When p) Second))"

text \<open>
  A commit whose committer time git prints and the code reads back unchanged: a whole
  number of seconds, not before the epoch, small enough for \<open>time.Unix\<close> not to
  wrap.
\<close>

definition printable :: "Commit \<Rightarrow> bool" where
  "printable c =
     (0 \<le> When c \<and> Second dvd When c \<and> When c div Second + unixToInternal \<le> maxDuration)"

text \<open>
  Commits reported in descending order of committer time, and the committer time of the
  oldest of them.
\<close>

definition newest_first :: "Commit list \<Rightarrow> bool" where
  "newest_first cs = sorted_wrt (\<lambda>a b. When b \<le> When a) cs"

definition oldest_time :: "Commit list \<Rightarrow> time" where
  "oldest_time cs = Min (set (map When cs))"

text \<open>
  A history of four commits with two tags, the git command run on it with the bounds
  that the two releases hand over, and the walk of its ancestry from a commit down to a
  boundary, which is left out. A release of a given lead time, in seconds. A walk that
  reports an older commit before a newer one.
\<close>

definition two_release_history :: "Commit list" where
  "two_release_history =
     [commit_at ''v2'' 20 ''release v2'', commit_at ''a1'' 15 ''add a feature'',
      commit_at ''v1'' 10 ''release v1'', commit_at ''c0'' 5 ''initial commit'']"

definition two_releases :: "ReleaseSource list" where
  "two_releases = [source_at ''v2'' 20 ''release v2'', source_at ''v1'' 10 ''release v1'']"

definition git_two_releases :: git_log where
  "git_two_releases since hash =
     (if since = SinceTime (time_Unix 11) \<and> hash = ''v2''
      then Output (map log_line (take 2 two_release_history))
      else if since = Since1900 \<and> hash = ''v1''
      then Output (map log_line (drop 2 two_release_history))
      else CmdErr)"

definition walk_two_releases :: traverse where
  "walk_two_releases boundary c =
     (takeWhile (\<lambda>x. \<not> (case boundary of None \<Rightarrow> False | Some p \<Rightarrow> Hash x = Hash p))
        (dropWhile (\<lambda>x. Hash x \<noteq> Hash c) two_release_history),
      False)"

definition lead_release :: "string \<Rightarrow> int \<Rightarrow> int \<Rightarrow> Release" where
  "lead_release name sec lead =
     \<lparr>Tag = name, Date = time_Unix sec, LeadTimeForChanges = lead * Second,
      Result = \<lparr>IsSuccess = True, TimeToRestore = None\<rparr>\<rparr>"

definition walk_unordered :: traverse where
  "walk_unordered boundary c =
     ([c, commit_at ''a1'' 3 ''older work'', commit_at ''b1'' 5 ''merged later''], False)"

section \<open>Reference definitions for traversal failures\<close>

text \<open>
  The git command gave no timestamp to read: it failed, it printed nothing, its last
  line is empty, or the digits captured from its last line do not fit an int64. The
  signal kept in these cases is what the scan of the printed lines found.
\<close>

definition timestamp_unreadable :: "cmd_result \<Rightarrow> bool" where
  "timestamp_unreadable res =
     (case res of
        CmdErr \<Rightarrow> True
      | Output lines \<Rightarrow>
          lines = [] \<or> last lines = [] \<or>
          (case FindStringSubmatch (last lines) of
             None \<Rightarrow> False
           | Some ds \<Rightarrow> ParseInt ds = None))"

definition scanned_fix :: "Option option \<Rightarrow> cmd_result \<Rightarrow> bool" where
  "scanned_fix option res =
     (case res of
        CmdErr \<Rightarrow> False
      | Output lines \<Rightarrow> list_ex (isFixedCommit option) lines)"

section \<open>Deployment frequency\<close>

text \<open>
  \<open>defaultAction\<close> divides the number of releases by the number of whole days of the
  window, both converted to float64. The model keeps a finite float64 as the exact
  quotient and does not round; it keeps what the division does with a zero divisor:
  \<open>0/0\<close> is NaN and \<open>n/0\<close> is an infinity with the sign of \<open>n\<close>. The number of
  days is \<open>int(duration.Hours() / 24)\<close>, the window length in days truncated
  towards zero; the code computes it in float64, and for a window a few nanoseconds
  short of a whole number of days the rounding of \<open>Hours()\<close> can give one day
  more than the exact quotient kept here.
\<close>

datatype float64 = Finite rat | PosInf | NegInf | NaN

definition float64_div :: "int \<Rightarrow> int \<Rightarrow> float64" where
  "float64_div a b =
     (if b = 0 then (if a = 0 then NaN else if 0 < a then PosInf else NegInf)
      else Finite (of_int a / of_int b))"

definition Hour :: Duration where
  "Hour = 3600 * Second"

definition daysCount :: "Option \<Rightarrow> int" where
  "daysCount option = time_Sub (Until option) (Since option) sdiv (24 * Hour)"

definition deploymentFrequency :: "Option \<Rightarrow> Release list \<Rightarrow> float64" where
  "deploymentFrequency option rs =
     float64_div (int (length rs)) (daysCount option)"

definition window :: "int \<Rightarrow> int \<Rightarrow> Option" where
  "window since until =
     \<lparr>Since = time_Unix since, Until = time_Unix until, IgnorePattern = None,
      FixCommitPattern = None, IsLocalRepository = False\<rparr>"

section \<open>Reference definitions for the restore time of a release\<close>

text \<open>
  What decides the restore time of a release is its date and its verdict. Given the
  releases emitted after it (the older ones), a release carries a restore time exactly
  when it is a success, the releases right after it are failures, and a success follows
  those failures; the restore time is then its date minus the date of the last, that is
  the oldest, of those failures.
\<close>

definition key :: "Release \<Rightarrow> time \<times> bool" where
  "key r = (Date r, IsSuccess (Result r))"

definition restore_time :: "time \<times> bool \<Rightarrow> (time \<times> bool) list \<Rightarrow> Duration option" where
  "restore_time r older =
     (let failures = takeWhile (\<lambda>x. \<not> snd x) older;
          rest = dropWhile (\<lambda>x. \<not> snd x) older
      in if snd r \<and> failures \<noteq> [] \<and> rest \<noteq> []
         then Some (time_Sub (fst r) (fst (last failures)))
         else None)"

text \<open>
  The invariant of the loop: every emitted release carries the restore time that the
  releases emitted so far give it, and the index kept by the loop is that of the last
  emitted success. Before the first release is emitted the restore signal is false.
\<close>

definition streak_inv :: "loop_state \<Rightarrow> bool" where
  "streak_inv st =
     (let ks = map key (releases st); n = length ks; nx = nextSuccessReleaseIndex st
      in (\<forall>k<n. TimeToRestore (Result (releases st ! k)) = restore_time (ks ! k) (drop (Suc k) ks))
         \<and> (if n = 0 then \<not> isRestored st
             else 0 \<le> nx \<and> nat nx < n \<and> snd (ks ! nat nx)
                  \<and> (\<forall>j. nat nx < j \<and> j < n \<longrightarrow> \<not> snd (ks ! j))))"

section \<open>Properties of the classifier\<close>

lemma scan_lines_fst_gen:
  "fst (foldl (\<lambda>(r, l) line. (if isFixedCommit option line then True else r, line)) (b, x) lines)
     = (b \<or> list_ex (isFixedCommit option) lines)"
  by (induction lines arbitrary: b x) auto

lemma scan_lines_fst: "fst (scan_lines option lines) = list_ex (isFixedCommit option) lines"
  by (simp add: scan_lines_def scan_lines_fst_gen)

lemma visit_commits_fst_gen:
  "fst (foldl (\<lambda>(r, l) c. (if isFixedCommit option (Message c) then True else r, Some c)) (b, x) cs)
     = (b \<or> list_ex (\<lambda>c. isFixedCommit option (Message c)) cs)"
  by (induction cs arbitrary: b x) auto

lemma visit_commits_fst:
  "fst (visit_commits option cs) = list_ex (\<lambda>c. isFixedCommit option (Message c)) cs"
  by (simp add: visit_commits_def visit_commits_fst_gen)

lemma LocalGit_signal:
  assumes "getIsRestoredAndLeadTimeForChangesByLocalGit git sources i option = Inr (r, lt)"
  shows "r = (case git (local_since sources i) (Hash (commit (sources ! i))) of
                CmdErr \<Rightarrow> False
              | Output lines \<Rightarrow> list_ex (isFixedCommit option) lines)"
proof (cases "git (local_since sources i) (Hash (commit (sources ! i)))")
  case CmdErr
  with assms show ?thesis
    by (simp add: getIsRestoredAndLeadTimeForChangesByLocalGit_def split: if_splits)
next
  case (Output lines)
  obtain a b where ab: "scan_lines option lines = (a, b)"
    by (cases "scan_lines option lines")
  then have a: "a = list_ex (isFixedCommit option) lines"
    using scan_lines_fst [of option lines] by simp
  from assms Output ab have "r = a"
    by (simp add: getIsRestoredAndLeadTimeForChangesByLocalGit_def
        split: if_splits option.splits)
  with a Output show ?thesis by simp
qed

lemma GoGit_signal:
  assumes "getIsRestoredAndLeadTimeForChangesByGoGit traverseCommits sources i option = Inr (r, lt)"
  shows "r = list_ex (\<lambda>c. isFixedCommit option (Message c))
               (fst (traverseCommits (preReleaseCommit_of sources i) (commit (sources ! i))))"
proof -
  obtain visited err where w:
    "traverseCommits (preReleaseCommit_of sources i) (commit (sources ! i)) = (visited, err)"
    by (cases "traverseCommits (preReleaseCommit_of sources i) (commit (sources ! i))")
  obtain a b where ab: "visit_commits option visited = (a, b)"
    by (cases "visit_commits option visited")
  then have a: "a = list_ex (\<lambda>c. isFixedCommit option (Message c)) visited"
    using visit_commits_fst [of option visited] by simp
  from assms w ab have "r = a"
    by (simp add: getIsRestoredAndLeadTimeForChangesByGoGit_def
        split: if_splits option.splits)
  with a w show ?thesis by simp
qed

lemma traversal_signal:
  assumes "traversal git traverseCommits sources i option = Inr (r, lt)"
  shows "r = found_fix_commit git traverseCommits option sources i"
proof (cases "case option of None \<Rightarrow> False | Some o' \<Rightarrow> IsLocalRepository o'")
  case True
  with assms show ?thesis
    by (simp add: traversal_def found_fix_commit_def LocalGit_signal)
next
  case False
  with assms show ?thesis
    by (simp add: traversal_def found_fix_commit_def GoGit_signal)
qed

lemma mark_success_verdicts:
  assumes "mark_success st = Inr st1"
  shows "map (\<lambda>r. IsSuccess (Result r)) (releases st1) = map (\<lambda>r. IsSuccess (Result r)) (releases st)"
    and "isRestored st1 = isRestored st"
  using assms
  by (auto simp: mark_success_def Let_def set_TimeToRestore_def map_update list_update_same_conv
      split: if_splits)

lemma loop_body_skip:
  "\<not> passes option sources i \<Longrightarrow> loop_body git traverseCommits option sources i st = Inr st"
  by (auto simp: loop_body_def passes_def Let_def)

lemma loop_body_emit:
  assumes "passes option sources i"
    and "loop_body git traverseCommits option sources i st = Inr st'"
  shows "map (\<lambda>r. IsSuccess (Result r)) (releases st')
           = map (\<lambda>r. IsSuccess (Result r)) (releases st) @ [\<not> isRestored st]"
    and "isRestored st' = found_fix_commit git traverseCommits option sources i"
  using assms mark_success_verdicts [of st] traversal_signal [of git traverseCommits sources i option]
  by (auto simp: loop_body_def passes_def Let_def split: if_splits sum.splits prod.splits)

lemma loop_verdicts:
  assumes "loop git traverseCommits option sources is st = Inr st'"
  shows "map (\<lambda>r. IsSuccess (Result r)) (releases st')
           = map (\<lambda>r. IsSuccess (Result r)) (releases st)
             @ verdicts (found_fix_commit git traverseCommits option sources) (isRestored st)
                 (filter (passes option sources) is)"
  using assms
proof (induction "is" arbitrary: st)
  case Nil
  then show ?case by simp
next
  case (Cons i "is")
  from Cons.prems obtain st1 where
    body: "loop_body git traverseCommits option sources i st = Inr st1" and
    rest: "loop git traverseCommits option sources is st1 = Inr st'"
    by (auto split: sum.splits)
  show ?case
  proof (cases "passes option sources i")
    case True
    from loop_body_emit [OF True body] Cons.IH [OF rest] True
    show ?thesis by simp
  next
    case False
    with body have "st1 = st" by (simp add: loop_body_skip)
    with Cons.IH [OF rest] False show ?thesis by simp
  qed
qed

lemma QueryReleases_verdicts:
  assumes "QueryReleases git traverseCommits option sources = Inr rs"
  shows "map (\<lambda>r. IsSuccess (Result r)) rs
           = verdicts (found_fix_commit git traverseCommits option sources) False
               (emitted option sources)"
  using assms loop_verdicts [of git traverseCommits option sources "[0 ..< length sources]" init_state]
  by (auto simp: QueryReleases_def emitted_def init_state_def split: sum.splits)

lemma length_verdicts: "length (verdicts f s js) = length js"
  by (induction js arbitrary: s) auto

lemma verdicts_Suc: "Suc k < length js \<Longrightarrow> verdicts f s js ! Suc k = (\<not> f (js ! k))"
proof (induction js arbitrary: s k)
  case Nil
  then show ?case by simp
next
  case (Cons j js)
  then show ?case by (cases k; cases js) auto
qed

lemma verdicts_0: "js \<noteq> [] \<Longrightarrow> verdicts f s js ! 0 = (\<not> s)"
  by (cases js) auto

text \<open>
  Claim C1. Whenever \<open>QueryReleases\<close> returns, it has emitted one release per source
  that passes the filters, and every emitted release but the first is a success exactly
  when the traversal run for the release emitted just before it (the next-newer one)
  found no commit matching the fix-commit pattern.
\<close>

theorem isSuccess_negates_fix_signal:
  assumes "QueryReleases git traverseCommits option sources = Inr rs"
    and "Suc k < length rs"
  shows "length rs = length (emitted option sources) \<and>
         (IsSuccess (Result (rs ! Suc k))
            \<longleftrightarrow> \<not> found_fix_commit git traverseCommits option sources (emitted option sources ! k))"
proof -
  let ?v = "verdicts (found_fix_commit git traverseCommits option sources) False (emitted option sources)"
  have eq: "map (\<lambda>r. IsSuccess (Result r)) rs = ?v"
    by (rule QueryReleases_verdicts [OF assms(1)])
  have "length (map (\<lambda>r. IsSuccess (Result r)) rs) = length ?v"
    by (simp only: eq)
  then have len: "length rs = length (emitted option sources)"
    by (simp add: length_verdicts)
  have "IsSuccess (Result (rs ! Suc k)) = map (\<lambda>r. IsSuccess (Result r)) rs ! Suc k"
    using assms(2) by simp
  also have "\<dots> = ?v ! Suc k" by (simp only: eq)
  also have "\<dots> = (\<not> found_fix_commit git traverseCommits option sources (emitted option sources ! k))"
    using assms(2) len by (simp add: verdicts_Suc)
  finally show ?thesis using len by simp
qed

text \<open>
  Claim C9. The first release that \<open>QueryReleases\<close> emits is a success: the output
  never begins with a failure.
\<close>

theorem first_release_is_success:
  assumes "QueryReleases git traverseCommits option sources = Inr rs"
    and "rs \<noteq> []"
  shows "IsSuccess (Result (rs ! 0))"
proof -
  let ?v = "verdicts (found_fix_commit git traverseCommits option sources) False (emitted option sources)"
  have eq: "map (\<lambda>r. IsSuccess (Result r)) rs = ?v"
    by (rule QueryReleases_verdicts [OF assms(1)])
  have "length (map (\<lambda>r. IsSuccess (Result r)) rs) = length ?v"
    by (simp only: eq)
  then have ne: "emitted option sources \<noteq> []"
    using assms(2) by (auto simp: length_verdicts)
  have "IsSuccess (Result (rs ! 0)) = map (\<lambda>r. IsSuccess (Result r)) rs ! 0"
    using assms(2) by simp
  also have "\<dots> = ?v ! 0" by (simp only: eq)
  also have "\<dots> = True" using ne by (simp add: verdicts_0)
  finally show ?thesis by simp
qed

lemma three_tags_releases:
  "QueryReleases git_unavailable walk_tagged_commit None three_tags
     = Inr [released ''v3'' 30 True, released ''v2'' 20 True, released ''v1'' 10 False]"
  by code_simp

theorem isSuccess_negates_fix_signal_witness:
  "QueryReleases git_unavailable walk_tagged_commit None three_tags
     = Inr [released ''v3'' 30 True, released ''v2'' 20 True, released ''v1'' 10 False]
   \<and> emitted None three_tags = [0, 1, 2]
   \<and> found_fix_commit git_unavailable walk_tagged_commit None three_tags 1
   \<and> \<not> IsSuccess (Result (released ''v1'' 10 False))"
proof -
  have len: "Suc 1 < length [released ''v3'' 30 True, released ''v2'' 20 True, released ''v1'' 10 False]"
    by simp
  have em: "emitted None three_tags = [0, 1, 2]"
    by code_simp
  from isSuccess_negates_fix_signal [OF three_tags_releases len] em
  show ?thesis
    using three_tags_releases by (simp add: released_def)
qed

theorem first_release_is_success_witness:
  "QueryReleases git_unavailable walk_tagged_commit None three_tags
     = Inr [released ''v3'' 30 True, released ''v2'' 20 True, released ''v1'' 10 False]
   \<and> IsSuccess (Result (released ''v3'' 30 True))"
proof -
  have ne: "[released ''v3'' 30 True, released ''v2'' 20 True, released ''v1'' 10 False] \<noteq> []"
    by simp
  from first_release_is_success [OF three_tags_releases ne]
  show ?thesis
    using three_tags_releases by simp
qed

section \<open>Properties of the aggregator\<close>

lemma wrap64_add_left: "wrap64 (wrap64 a + b) = wrap64 (a + b)"
  by (simp add: wrap64_def signed_take_bit_add [symmetric, of 63 a b]
      signed_take_bit_add [symmetric, of 63 "signed_take_bit 63 a" b])

lemma wrap64_idem: "wrap64 (wrap64 a) = wrap64 a"
  by (simp add: wrap64_def)

lemma closed_transitions_failures:
  "\<not> IsSuccess (Result p) \<Longrightarrow> \<not> IsSuccess (Result x) \<Longrightarrow>
     closed_transitions (p # x # rest) = closed_transitions (p # rest)"
  by simp

lemma closed_transitions_restore:
  "\<not> IsSuccess (Result p) \<Longrightarrow> IsSuccess (Result x) \<Longrightarrow>
     closed_transitions (p # x # rest) = (p, x) # closed_transitions rest"
  by simp

lemma restore_loop_gaps:
  assumes "n \<le> length rs"
    and "wrap64 acc = acc"
    and "failed < 0 \<or> (failed < int (length rs) \<and> \<not> IsSuccess (Result (rs ! nat failed)))"
  shows "fst (restore_loop rs n (acc, cnt, failed))
           = wrap64 (acc + sum_list (restore_gaps (pending_failure rs failed @ rev (take n rs))))
         \<and> fst (snd (restore_loop rs n (acc, cnt, failed)))
           = cnt + int (length (restore_gaps (pending_failure rs failed @ rev (take n rs))))"
  using assms
proof (induction n arbitrary: acc cnt failed)
  case 0
  then show ?case
    by (auto simp: restore_gaps_def pending_failure_def)
next
  case (Suc i)
  then have i: "i < length rs" by simp
  then have tk: "rev (take (Suc i) rs) = rs ! i # rev (take i rs)"
    by (simp add: take_Suc_conv_app_nth)
  show ?case
  proof (cases "IsSuccess (Result (rs ! i))")
    case False
    show ?thesis
    proof (cases "failed < 0")
      case True
      have "fst (restore_loop rs i (acc, cnt, int i))
           = wrap64 (acc + sum_list (restore_gaps (pending_failure rs (int i) @ rev (take i rs))))
         \<and> fst (snd (restore_loop rs i (acc, cnt, int i)))
           = cnt + int (length (restore_gaps (pending_failure rs (int i) @ rev (take i rs))))"
        using Suc.prems i False by (intro Suc.IH) auto
      with False True tk show ?thesis
        by (simp add: pending_failure_def)
    next
      case nf: False
      have "fst (restore_loop rs i (acc, cnt, failed))
           = wrap64 (acc + sum_list (restore_gaps (pending_failure rs failed @ rev (take i rs))))
         \<and> fst (snd (restore_loop rs i (acc, cnt, failed)))
           = cnt + int (length (restore_gaps (pending_failure rs failed @ rev (take i rs))))"
        using Suc.prems i by (intro Suc.IH) auto
      moreover have "\<not> IsSuccess (Result (rs ! nat failed))"
        using Suc.prems nf by auto
      ultimately show ?thesis
        using False nf tk by (simp add: pending_failure_def restore_gaps_def)
    qed
  next
    case True
    show ?thesis
    proof (cases "failed < 0")
      case f: True
      have "fst (restore_loop rs i (acc, cnt, failed))
           = wrap64 (acc + sum_list (restore_gaps (pending_failure rs failed @ rev (take i rs))))
         \<and> fst (snd (restore_loop rs i (acc, cnt, failed)))
           = cnt + int (length (restore_gaps (pending_failure rs failed @ rev (take i rs))))"
        using Suc.prems i by (intro Suc.IH) auto
      with True f tk show ?thesis
        by (simp add: pending_failure_def restore_gaps_def)
    next
      case nf: False
      let ?g = "time_Sub (Date (rs ! i)) (Date (rs ! nat failed))"
      have "fst (restore_loop rs i (wrap64 (acc + ?g), cnt + 1, - 1))
           = wrap64 (wrap64 (acc + ?g) + sum_list (restore_gaps (pending_failure rs (- 1) @ rev (take i rs))))
         \<and> fst (snd (restore_loop rs i (wrap64 (acc + ?g), cnt + 1, - 1)))
           = cnt + 1 + int (length (restore_gaps (pending_failure rs (- 1) @ rev (take i rs))))"
        using Suc.prems i by (intro Suc.IH) (auto simp: wrap64_idem)
      moreover have "\<not> IsSuccess (Result (rs ! nat failed))"
        using Suc.prems nf by auto
      ultimately show ?thesis
        using True nf tk
        by (simp add: pending_failure_def restore_gaps_def wrap64_add_left add.assoc)
    qed
  qed
qed

lemma wrap64_in_range: "minDuration \<le> x \<Longrightarrow> x \<le> maxDuration \<Longrightarrow> wrap64 x = x"
  by (simp add: wrap64_def minDuration_def maxDuration_def signed_take_bit_int_eq_self)

lemma getTimeToRestoreServices_mean:
  "getTimeToRestoreServices rs = duration_mean (restore_gaps (rev rs))"
proof -
  obtain a c f where loop: "restore_loop rs (length rs) (0, 0, - 1) = (a, c, f)"
    by (cases "restore_loop rs (length rs) (0, 0, - 1)")
  have "wrap64 0 = 0" by (simp add: wrap64_def)
  then have "fst (restore_loop rs (length rs) (0, 0, - 1))
           = wrap64 (0 + sum_list (restore_gaps (pending_failure rs (- 1) @ rev (take (length rs) rs))))
         \<and> fst (snd (restore_loop rs (length rs) (0, 0, - 1)))
           = 0 + int (length (restore_gaps (pending_failure rs (- 1) @ rev (take (length rs) rs))))"
    by (intro restore_loop_gaps) auto
  with loop have a: "a = wrap64 (sum_list (restore_gaps (rev rs)))"
    and c: "c = int (length (restore_gaps (rev rs)))"
    by (simp_all add: pending_failure_def)
  show ?thesis
  proof (cases "restore_gaps (rev rs) = []")
    case True
    with a c loop show ?thesis
      by (simp add: getTimeToRestoreServices_def duration_mean_def wrap64_def)
  next
    case False
    with a c loop show ?thesis
      by (simp add: getTimeToRestoreServices_def duration_mean_def)
  qed
qed

text \<open>
  Claim C6. \<open>getTimeToRestoreServices\<close> returns the mean, over the closed
  failure-to-success transitions met when the sequence is read from its oldest release
  to its newest, of the restoring success's date minus the date of the oldest failure of
  the streak. It returns 0 when there is no such transition, and the truncated quotient
  of the exact sum by the number of transitions whenever that sum fits a Duration.
\<close>

theorem time_to_restore_services_is_mean:
  "getTimeToRestoreServices rs = duration_mean (restore_gaps (rev rs))
   \<and> (restore_gaps (rev rs) = [] \<longrightarrow> getTimeToRestoreServices rs = 0)
   \<and> (restore_gaps (rev rs) \<noteq> []
        \<and> minDuration \<le> sum_list (restore_gaps (rev rs))
        \<and> sum_list (restore_gaps (rev rs)) \<le> maxDuration
      \<longrightarrow> getTimeToRestoreServices rs
            = sum_list (restore_gaps (rev rs)) sdiv int (length (restore_gaps (rev rs))))"
  by (simp add: getTimeToRestoreServices_mean duration_mean_def wrap64_in_range)

lemma two_outages_gaps: "restore_gaps (rev two_outages) = [4 * Second, 20 * Second]"
  by code_simp

theorem time_to_restore_services_is_mean_witness:
  "restore_gaps (rev two_outages) = [4 * Second, 20 * Second]
   \<and> minDuration \<le> sum_list [4 * Second, 20 * Second]
   \<and> sum_list [4 * Second, 20 * Second] \<le> maxDuration
   \<and> getTimeToRestoreServices two_outages = 12 * Second"
proof -
  have r: "minDuration \<le> sum_list [4 * Second, 20 * Second]
           \<and> sum_list [4 * Second, 20 * Second] \<le> maxDuration"
    by (simp add: minDuration_def maxDuration_def Second_def)
  from time_to_restore_services_is_mean [of two_outages] r
  show ?thesis
    by (simp add: two_outages_gaps Second_def)
qed

section \<open>Properties of the lead time\<close>

lemma scan_lines_snd_gen:
  "snd (foldl (\<lambda>(r, l) line. (if isFixedCommit option line then True else r, line)) (b, x) lines)
     = (if lines = [] then x else last lines)"
  by (induction lines arbitrary: b x) auto

lemma scan_lines_snd: "snd (scan_lines option lines) = (if lines = [] then [] else last lines)"
  by (simp add: scan_lines_def scan_lines_snd_gen)

lemma visit_commits_snd_gen:
  "snd (foldl (\<lambda>(r, l) c. (if isFixedCommit option (Message c) then True else r, Some c)) (b, x) cs)
     = (if cs = [] then x else Some (last cs))"
  by (induction cs arbitrary: b x) auto

lemma visit_commits_snd:
  "snd (visit_commits option cs) = (if cs = [] then None else Some (last cs))"
  by (simp add: visit_commits_def visit_commits_snd_gen)

lemma FindStringSubmatch_Nil: "FindStringSubmatch [] = None"
  by (simp add: FindStringSubmatch_def)

lemma LocalGit_lead_time:
  assumes "getIsRestoredAndLeadTimeForChangesByLocalGit git sources i option = Inr (r, lt)"
  shows "lt = (case git (local_since sources i) (Hash (commit (sources ! i))) of
                 CmdErr \<Rightarrow> 0
               | Output lines \<Rightarrow>
                   if lines = [] then 0
                   else (case FindStringSubmatch (last lines) of
                           None \<Rightarrow> 0
                         | Some ds \<Rightarrow>
                             (case ParseInt ds of
                                None \<Rightarrow> 0
                              | Some n \<Rightarrow> time_Sub (When (commit (sources ! i))) (time_Unix n))))"
proof (cases "git (local_since sources i) (Hash (commit (sources ! i)))")
  case CmdErr
  with assms show ?thesis
    by (simp add: getIsRestoredAndLeadTimeForChangesByLocalGit_def split: if_splits)
next
  case (Output lines)
  obtain a b where ab: "scan_lines option lines = (a, b)"
    by (cases "scan_lines option lines")
  then have b: "b = (if lines = [] then [] else last lines)"
    using scan_lines_snd [of option lines] by simp
  show ?thesis
  proof (cases "b = []")
    case True
    with assms Output ab have "lt = 0"
      by (simp add: getIsRestoredAndLeadTimeForChangesByLocalGit_def split: if_splits)
    with True b Output show ?thesis
      by (simp add: FindStringSubmatch_Nil split: if_splits)
  next
    case False
    with b have ne: "lines \<noteq> []" and bl: "b = last lines"
      by (auto split: if_splits)
    from assms Output ab False
    have "(case FindStringSubmatch b of
             None \<Rightarrow> Inl IndexOutOfRange
           | Some ds \<Rightarrow>
               (case ParseInt ds of
                  None \<Rightarrow> Inr (a, 0)
                | Some n \<Rightarrow> Inr (a, time_Sub (When (commit (sources ! i))) (time_Unix n))))
          = Inr (r, lt)"
      by (simp add: getIsRestoredAndLeadTimeForChangesByLocalGit_def split: if_splits)
    then have "lt = (case FindStringSubmatch b of
                       None \<Rightarrow> 0
                     | Some ds \<Rightarrow>
                         (case ParseInt ds of
                            None \<Rightarrow> 0
                          | Some n \<Rightarrow> time_Sub (When (commit (sources ! i))) (time_Unix n)))"
      by (auto split: option.splits)
    with Output ne bl show ?thesis by simp
  qed
qed

lemma GoGit_lead_time:
  assumes "getIsRestoredAndLeadTimeForChangesByGoGit traverseCommits sources i option = Inr (r, lt)"
  shows "lt = (case traverseCommits (preReleaseCommit_of sources i) (commit (sources ! i)) of
                 (visited, err) \<Rightarrow>
                   if err \<or> visited = [] then 0
                   else time_Sub (When (commit (sources ! i))) (When (last visited)))"
proof -
  obtain visited err where w:
    "traverseCommits (preReleaseCommit_of sources i) (commit (sources ! i)) = (visited, err)"
    by (cases "traverseCommits (preReleaseCommit_of sources i) (commit (sources ! i))")
  obtain a b where ab: "visit_commits option visited = (a, b)"
    by (cases "visit_commits option visited")
  then have b: "b = (if visited = [] then None else Some (last visited))"
    using visit_commits_snd [of option visited] by simp
  from assms w ab b show ?thesis
    by (auto simp: getIsRestoredAndLeadTimeForChangesByGoGit_def split: if_splits)
qed

lemma traversal_lead_time:
  assumes "traversal git traverseCommits sources i option = Inr (r, lt)"
  shows "lt = lead_time_of git traverseCommits option sources i"
proof (cases "case option of None \<Rightarrow> False | Some o' \<Rightarrow> IsLocalRepository o'")
  case True
  with assms have "getIsRestoredAndLeadTimeForChangesByLocalGit git sources i option = Inr (r, lt)"
    by (simp add: traversal_def)
  from LocalGit_lead_time [OF this] True show ?thesis
    by (simp add: lead_time_of_def last_reported_time_def
        split: cmd_result.splits option.splits)
next
  case False
  with assms have "getIsRestoredAndLeadTimeForChangesByGoGit traverseCommits sources i option = Inr (r, lt)"
    by (simp add: traversal_def)
  from GoGit_lead_time [OF this] False show ?thesis
    by (simp add: lead_time_of_def last_reported_time_def split: prod.splits)
qed

lemma mark_success_facts:
  assumes "mark_success st = Inr st1"
  shows "map facts (releases st1) = map facts (releases st)"
  using assms
  by (auto simp: mark_success_def Let_def set_TimeToRestore_def facts_def map_update
      list_update_same_conv split: if_splits)

lemma loop_body_facts:
  assumes "passes option sources i"
    and "loop_body git traverseCommits option sources i st = Inr st'"
  shows "map facts (releases st')
           = map facts (releases st)
             @ [(tag (sources ! i), When (commit (sources ! i)),
                 lead_time_of git traverseCommits option sources i)]"
proof -
  from assms obtain st1 r lt where
    st1: "(if \<not> isRestored st then mark_success st else Inr st) = Inr st1" and
    tr: "traversal git traverseCommits sources i option = Inr (r, lt)" and
    st': "releases st' = releases st1 @
            [\<lparr>Tag = tag (sources ! i), Date = When (commit (sources ! i)),
              LeadTimeForChanges = lt,
              Result = \<lparr>IsSuccess = \<not> isRestored st, TimeToRestore = None\<rparr>\<rparr>]"
    by (auto simp: loop_body_def passes_def Let_def split: sum.splits prod.splits)
  from st1 have "map facts (releases st1) = map facts (releases st)"
    using mark_success_facts [of st st1] by (auto split: if_splits)
  with st' traversal_lead_time [OF tr] show ?thesis
    by (simp add: facts_def)
qed

lemma loop_facts:
  assumes "loop git traverseCommits option sources is st = Inr st'"
  shows "map facts (releases st')
           = map facts (releases st)
             @ map (\<lambda>i. (tag (sources ! i), When (commit (sources ! i)),
                          lead_time_of git traverseCommits option sources i))
                 (filter (passes option sources) is)"
  using assms
proof (induction "is" arbitrary: st)
  case Nil
  then show ?case by simp
next
  case (Cons i "is")
  from Cons.prems obtain st1 where
    body: "loop_body git traverseCommits option sources i st = Inr st1" and
    rest: "loop git traverseCommits option sources is st1 = Inr st'"
    by (auto split: sum.splits)
  show ?case
  proof (cases "passes option sources i")
    case True
    from loop_body_facts [OF True body] Cons.IH [OF rest] True
    show ?thesis by simp
  next
    case False
    with body have "st1 = st" by (simp add: loop_body_skip)
    with Cons.IH [OF rest] False show ?thesis by simp
  qed
qed

lemma QueryReleases_facts:
  assumes "QueryReleases git traverseCommits option sources = Inr rs"
  shows "map facts rs
           = map (\<lambda>i. (tag (sources ! i), When (commit (sources ! i)),
                        lead_time_of git traverseCommits option sources i))
               (emitted option sources)"
  using assms loop_facts [of git traverseCommits option sources "[0 ..< length sources]" init_state]
  by (auto simp: QueryReleases_def emitted_def init_state_def split: sum.splits)

lemma QueryReleases_lead_time:
  assumes "QueryReleases git traverseCommits option sources = Inr rs"
    and "k < length rs"
  shows "length rs = length (emitted option sources)
       \<and> Date (rs ! k) = When (commit (sources ! (emitted option sources ! k)))
       \<and> LeadTimeForChanges (rs ! k)
           = lead_time_of git traverseCommits option sources (emitted option sources ! k)"
proof -
  let ?f = "\<lambda>i. (tag (sources ! i), When (commit (sources ! i)),
                  lead_time_of git traverseCommits option sources i)"
  have eq: "map facts rs = map ?f (emitted option sources)"
    by (rule QueryReleases_facts [OF assms(1)])
  have "length (map facts rs) = length (map ?f (emitted option sources))"
    by (simp only: eq)
  then have len: "length rs = length (emitted option sources)" by simp
  have "facts (rs ! k) = map facts rs ! k"
    using assms(2) by simp
  also have "\<dots> = map ?f (emitted option sources) ! k" by (simp only: eq)
  also have "\<dots> = ?f (emitted option sources ! k)"
    using assms(2) len by simp
  finally have f: "facts (rs ! k) = ?f (emitted option sources ! k)" .
  then have d: "Date (rs ! k) = When (commit (sources ! (emitted option sources ! k)))"
    and l: "LeadTimeForChanges (rs ! k)
              = lead_time_of git traverseCommits option sources (emitted option sources ! k)"
    by (simp_all add: facts_def)
  from len d l show ?thesis by simp
qed

text \<open>
  The timestamp read from a printed line is the committer time that was printed: the
  pattern captures the digits between the opening quote and the space, and parsing them
  gives the number back.
\<close>

lemma of_char_digit_char:
  assumes "0 \<le> d" and "d < 10"
  shows "(of_char (digit_char d) :: int) = 48 + d"
  using assms by (simp add: digit_char_def)

lemma is_digit_digit_char:
  assumes "0 \<le> d" and "d < 10"
  shows "is_digit (digit_char d)"
proof -
  have "(of_char (digit_char d) :: nat) = nat (of_char (digit_char d) :: int)"
    by (simp only: nat_of_char)
  also have "\<dots> = nat (48 + d)"
    by (simp only: of_char_digit_char [OF assms])
  finally have "(of_char (digit_char d) :: nat) = nat (48 + d)" .
  moreover have "48 \<le> nat (48 + d)" and "nat (48 + d) \<le> 57"
    using assms by simp_all
  ultimately show ?thesis
    by (simp add: is_digit_def Let_def)
qed

lemma digit_val_digit_char: "0 \<le> d \<Longrightarrow> d < 10 \<Longrightarrow> digit_val (digit_char d) = d"
  by (simp add: digit_val_def of_char_digit_char)

lemma digits_all_digit: "0 \<le> n \<Longrightarrow> list_all is_digit (digits n)"
proof (induction n rule: digits.induct)
  case (1 n)
  show ?case
  proof (cases "n < 10")
    case True
    with 1 show ?thesis by (simp add: digits.simps [of n] is_digit_digit_char)
  next
    case False
    with 1 have "list_all is_digit (digits (n div 10))"
      by (simp add: pos_imp_zdiv_nonneg_iff)
    with False show ?thesis by (simp add: digits.simps [of n] is_digit_digit_char)
  qed
qed

lemma digits_not_Nil: "digits n \<noteq> []"
  by (simp add: digits.simps [of n])

lemma decimal_snoc: "decimal (ds @ [c]) = decimal ds * 10 + digit_val c"
  by (simp add: decimal_def)

lemma decimal_digits: "0 \<le> n \<Longrightarrow> decimal (digits n) = n"
proof (induction n rule: digits.induct)
  case (1 n)
  show ?case
  proof (cases "n < 10")
    case True
    with 1 show ?thesis
      by (simp add: digits.simps [of n] decimal_def digit_val_digit_char)
  next
    case False
    with 1 have "decimal (digits (n div 10)) = n div 10"
      by (simp add: pos_imp_zdiv_nonneg_iff)
    with False show ?thesis
      by (simp add: digits.simps [of n] decimal_snoc digit_val_digit_char)
  qed
qed

lemma ParseInt_digits: "0 \<le> n \<Longrightarrow> n \<le> maxDuration \<Longrightarrow> ParseInt (digits n) = Some n"
  by (simp add: ParseInt_def digits_all_digit digits_not_Nil decimal_digits)

lemma FindStringSubmatch_quoted:
  assumes "ds \<noteq> []" and "list_all is_digit ds"
  shows "FindStringSubmatch (CHR 0x22 # ds @ CHR '' '' # rest) = Some ds"
proof -
  have q: "\<not> is_digit (CHR 0x22)" and sp: "\<not> is_digit CHR '' ''"
    by (simp_all add: is_digit_def)
  from assms obtain d ds' where ds: "ds = d # ds'" and d: "is_digit d"
    by (cases ds) auto
  have all: "\<And>x. x \<in> set ds \<Longrightarrow> is_digit x"
    using assms(2) by (simp add: list_all_iff)
  have tw: "takeWhile is_digit (ds @ CHR '' '' # rest) = ds"
    using all sp by (simp add: takeWhile_append2)
  have dw: "dropWhile is_digit (ds @ CHR '' '' # rest) = CHR '' '' # rest"
    using all sp by (simp add: dropWhile_append2)
  have pre: "takeWhile (\<lambda>c. \<not> is_digit c) (CHR 0x22 # ds @ CHR '' '' # rest) = [CHR 0x22]"
    using q d ds by simp
  have post: "dropWhile (\<lambda>c. \<not> is_digit c) (CHR 0x22 # ds @ CHR '' '' # rest) = ds @ CHR '' '' # rest"
    using q d ds by simp
  show ?thesis
    unfolding FindStringSubmatch_def pre post tw dw Let_def
    using assms(1) by simp
qed

lemma FindStringSubmatch_log_line:
  assumes "0 \<le> When c"
  shows "FindStringSubmatch (log_line c) = Some (digits (When c div Second))"
proof -
  have nn: "0 \<le> When c div Second"
    using assms by (simp add: Second_def pos_imp_zdiv_nonneg_iff)
  then have "log_line c
      = CHR 0x22 # digits (When c div Second) @ CHR '' '' # (subject (Message c) @ [CHR 0x22])"
    by (simp add: log_line_def show_ct_def)
  then show ?thesis
    by (simp only: FindStringSubmatch_quoted [OF digits_not_Nil digits_all_digit [OF nn]])
qed

lemma last_reported_time_git_log:
  assumes loc: "IsLocalRepository o'"
    and out: "git (local_since sources i) (Hash (commit (sources ! i))) = Output (map log_line cs)"
    and ne: "cs \<noteq> []"
    and nonneg: "0 \<le> When (last cs)"
    and fits: "When (last cs) div Second \<le> maxDuration"
  shows "last_reported_time git traverseCommits (Some o') sources i
           = Some (time_Unix (When (last cs) div Second))"
proof -
  have l: "last (map log_line cs) = log_line (last cs)"
    using ne by (simp add: last_map)
  have nn: "0 \<le> When (last cs) div Second"
    using nonneg by (simp add: Second_def pos_imp_zdiv_nonneg_iff)
  then have "ParseInt (digits (When (last cs) div Second)) = Some (When (last cs) div Second)"
    using fits by (simp add: ParseInt_digits)
  with loc out ne l show ?thesis
    by (simp add: last_reported_time_def FindStringSubmatch_log_line [OF nonneg])
qed

lemma local_since_next_older: "local_since sources i = range_since sources i"
  by (auto simp: local_since_def range_since_def next_older_commit_def)

lemma preReleaseCommit_of_next_older:
  "preReleaseCommit_of sources i = next_older_commit sources i"
  by (auto simp: preReleaseCommit_of_def next_older_commit_def)

lemma newest_first_last_le:
  assumes "newest_first cs" and "c \<in> set cs"
  shows "When (last cs) \<le> When c"
  using assms
proof (induction cs)
  case Nil
  then show ?case by simp
next
  case (Cons a cs)
  show ?case
  proof (cases "cs = []")
    case True
    with Cons.prems show ?thesis by simp
  next
    case False
    from Cons.prems(1) have nf: "newest_first cs" and le: "\<forall>b\<in>set cs. When b \<le> When a"
      by (simp_all add: newest_first_def)
    show ?thesis
    proof (cases "c = a")
      case True
      from False have "last cs \<in> set cs" by simp
      with le True False show ?thesis by simp
    next
      case ne: False
      with Cons.prems(2) have "c \<in> set cs" by simp
      from Cons.IH [OF nf this] False show ?thesis by simp
    qed
  qed
qed

lemma oldest_time_newest_first:
  assumes "newest_first cs" and "cs \<noteq> []"
  shows "oldest_time cs = When (last cs)"
  unfolding oldest_time_def
proof (rule Min_eqI)
  show "finite (set (map When cs))" by simp
  show "When (last cs) \<in> set (map When cs)"
    using assms(2) by simp
  fix y assume "y \<in> set (map When cs)"
  then obtain c where "c \<in> set cs" and "y = When c" by auto
  with newest_first_last_le [OF assms(1)] show "When (last cs) \<le> y" by simp
qed

lemma time_Unix_printable: "printable c \<Longrightarrow> time_Unix (When c div Second) = When c"
proof -
  assume p: "printable c"
  then have nn: "0 \<le> When c div Second"
    by (simp add: printable_def Second_def pos_imp_zdiv_nonneg_iff)
  have "wrap64 (When c div Second + unixToInternal) = When c div Second + unixToInternal"
    using p nn by (intro wrap64_in_range) (simp_all add: printable_def unixToInternal_def minDuration_def)
  with p show ?thesis
    by (simp add: time_Unix_def printable_def)
qed

text \<open>
  Claim C7, as amended. Whenever \<open>QueryReleases\<close> returns, the date of every emitted
  release is the committer time of its tagged commit, and its lead time is that date
  minus the committer time of the last commit that the traversal of its range reports;
  this is the oldest commit of the range whenever the traversal reports the commits
  newest first. The lead time is 0 when the traversal fails or reports no commit. The
  range handed to the traversal is bounded below by the next-older release source when
  there is one (for git, the commits dated later than its committer time plus one
  second) and is the whole history of the release when there is none. For git the
  printed lines are taken in the format that the command asks for, with a printable
  last commit.
\<close>

theorem lead_time_from_reported_commits:
  assumes q: "QueryReleases git traverseCommits option sources = Inr rs"
    and k: "k < length rs"
    and i: "i = emitted option sources ! k"
  shows "Date (rs ! k) = When (commit (sources ! i))
       \<and> ((case option of None \<Rightarrow> False | Some o' \<Rightarrow> IsLocalRepository o') \<longrightarrow>
            (git (range_since sources i) (Hash (commit (sources ! i))) = CmdErr
               \<longrightarrow> LeadTimeForChanges (rs ! k) = 0)
          \<and> (git (range_since sources i) (Hash (commit (sources ! i))) = Output (map log_line cs)
               \<and> (cs \<noteq> [] \<longrightarrow> printable (last cs))
               \<longrightarrow> LeadTimeForChanges (rs ! k)
                     = (if cs = [] then 0 else time_Sub (Date (rs ! k)) (When (last cs)))
                 \<and> (cs \<noteq> [] \<and> newest_first cs
                      \<longrightarrow> LeadTimeForChanges (rs ! k)
                            = time_Sub (Date (rs ! k)) (oldest_time cs))))
       \<and> (\<not> (case option of None \<Rightarrow> False | Some o' \<Rightarrow> IsLocalRepository o') \<longrightarrow>
            (traverseCommits (next_older_commit sources i) (commit (sources ! i)) = (visited, err)
               \<longrightarrow> LeadTimeForChanges (rs ! k)
                     = (if err \<or> visited = [] then 0
                        else time_Sub (Date (rs ! k)) (When (last visited)))
                 \<and> (\<not> err \<and> visited \<noteq> [] \<and> newest_first visited
                      \<longrightarrow> LeadTimeForChanges (rs ! k)
                            = time_Sub (Date (rs ! k)) (oldest_time visited))))"
proof -
  let ?c = "commit (sources ! i)"
  let ?L = "LeadTimeForChanges (rs ! k)"
  from QueryReleases_lead_time [OF q k] i
  have d: "Date (rs ! k) = When ?c"
    and l: "?L = lead_time_of git traverseCommits option sources i"
    by simp_all
  have local: "?L = 0"
    if loc: "case option of None \<Rightarrow> False | Some o' \<Rightarrow> IsLocalRepository o'"
      and res: "git (range_since sources i) (Hash ?c) = CmdErr"
    using l loc res
    by (simp add: lead_time_of_def last_reported_time_def local_since_next_older)
  have printed: "?L = (if cs = [] then 0 else time_Sub (Date (rs ! k)) (When (last cs)))"
    if loc: "case option of None \<Rightarrow> False | Some o' \<Rightarrow> IsLocalRepository o'"
      and res: "git (range_since sources i) (Hash ?c) = Output (map log_line cs)"
      and pr: "cs \<noteq> [] \<longrightarrow> printable (last cs)"
  proof (cases "cs = []")
    case True
    with l loc res show ?thesis
      by (simp add: lead_time_of_def last_reported_time_def local_since_next_older)
  next
    case False
    with pr have p: "printable (last cs)" by simp
    from loc obtain o' where o: "option = Some o'" and lo: "IsLocalRepository o'"
      by (cases option) auto
    have out: "git (local_since sources i) (Hash ?c) = Output (map log_line cs)"
      using res by (simp add: local_since_next_older)
    have nonneg: "0 \<le> When (last cs)"
      using p by (simp add: printable_def)
    have fits: "When (last cs) div Second \<le> maxDuration"
      using p by (simp add: printable_def unixToInternal_def)
    from last_reported_time_git_log
           [where git = git and sources = sources and i = i and cs = cs
              and traverseCommits = traverseCommits, OF lo out False nonneg fits]
         time_Unix_printable [OF p]
    have "last_reported_time git traverseCommits option sources i = Some (When (last cs))"
      using o by simp
    with l d False show ?thesis
      by (simp add: lead_time_of_def)
  qed
  have walked: "?L = (if err \<or> visited = [] then 0
                      else time_Sub (Date (rs ! k)) (When (last visited)))"
    if loc: "\<not> (case option of None \<Rightarrow> False | Some o' \<Rightarrow> IsLocalRepository o')"
      and res: "traverseCommits (next_older_commit sources i) ?c = (visited, err)"
    using l d loc res
    by (simp add: lead_time_of_def last_reported_time_def preReleaseCommit_of_next_older)
  from d local printed walked show ?thesis
    by (simp add: oldest_time_newest_first)
qed

lemma two_releases_local:
  "QueryReleases git_two_releases walk_two_releases (Some local_option) two_releases
     = Inr [lead_release ''v2'' 20 5, lead_release ''v1'' 10 5]"
  by code_simp

lemma two_releases_go_git:
  "QueryReleases git_unavailable walk_two_releases None two_releases
     = Inr [lead_release ''v2'' 20 5, lead_release ''v1'' 10 5]"
  by code_simp

lemma one_release_git_failed:
  "QueryReleases git_unavailable walk_two_releases (Some local_option)
       [source_at ''v1'' 20 ''release v1'']
     = Inr [lead_release ''v1'' 20 0]"
  by code_simp

theorem lead_time_from_reported_commits_witness:
  "QueryReleases git_two_releases walk_two_releases (Some local_option) two_releases
     = Inr [lead_release ''v2'' 20 5, lead_release ''v1'' 10 5]
   \<and> git_two_releases (range_since two_releases 0) ''v2''
       = Output (map log_line (take 2 two_release_history))
   \<and> printable (last (take 2 two_release_history))
   \<and> newest_first (take 2 two_release_history)
   \<and> LeadTimeForChanges (lead_release ''v2'' 20 5)
       = time_Sub (time_Unix 20) (oldest_time (take 2 two_release_history))
   \<and> QueryReleases git_unavailable walk_two_releases (Some local_option)
         [source_at ''v1'' 20 ''release v1'']
       = Inr [lead_release ''v1'' 20 0]
   \<and> git_unavailable (range_since [source_at ''v1'' 20 ''release v1''] 0) ''v1'' = CmdErr
   \<and> LeadTimeForChanges (lead_release ''v1'' 20 0) = 0
   \<and> QueryReleases git_unavailable walk_two_releases None two_releases
       = Inr [lead_release ''v2'' 20 5, lead_release ''v1'' 10 5]
   \<and> walk_two_releases (next_older_commit two_releases 0) (commit (two_releases ! 0))
       = (take 2 two_release_history, False)
   \<and> LeadTimeForChanges (lead_release ''v2'' 20 5)
       = time_Sub (time_Unix 20) (When (last (take 2 two_release_history)))"
proof -
  let ?rs = "[lead_release ''v2'' 20 5, lead_release ''v1'' 10 5]"
  let ?cs = "take 2 two_release_history"
  have k: "0 < length ?rs" and k1: "0 < length [lead_release ''v1'' 20 0]"
    by simp_all
  have i1: "0 = emitted (Some local_option) two_releases ! 0"
    and i2: "0 = emitted (Some local_option) [source_at ''v1'' 20 ''release v1''] ! 0"
    and i3: "0 = emitted None two_releases ! 0"
    by code_simp+
  have loc: "case Some local_option of None \<Rightarrow> False | Some o' \<Rightarrow> IsLocalRepository o'"
    by (simp add: local_option_def)
  have out: "git_two_releases (range_since two_releases 0) (Hash (commit (two_releases ! 0)))
               = Output (map log_line ?cs)"
    by code_simp
  have h: "Hash (commit (two_releases ! 0)) = ''v2''"
    and h1: "Hash (commit ([source_at ''v1'' 20 ''release v1''] ! 0)) = ''v1''"
    and d: "Date (?rs ! 0) = time_Unix 20"
    by (simp_all add: two_releases_def source_at_def lead_release_def)
  have pr: "printable (last ?cs)"
    by code_simp
  have nf: "newest_first ?cs"
    by code_simp
  have ne: "?cs \<noteq> []"
    by (simp add: two_release_history_def)
  have err: "git_unavailable (range_since [source_at ''v1'' 20 ''release v1''] 0)
               (Hash (commit ([source_at ''v1'' 20 ''release v1''] ! 0))) = CmdErr"
    by (simp add: git_unavailable_def)
  have walk: "walk_two_releases (next_older_commit two_releases 0) (commit (two_releases ! 0))
                = (?cs, False)"
    by code_simp
  from lead_time_from_reported_commits
         [OF two_releases_local k i1, where cs = ?cs and visited = "[]" and err = False]
       loc out pr nf ne
  have a: "LeadTimeForChanges (?rs ! 0) = time_Sub (Date (?rs ! 0)) (oldest_time ?cs)"
    by blast
  from lead_time_from_reported_commits
         [OF one_release_git_failed k1 i2, where cs = "[]" and visited = "[]" and err = False]
       loc err
  have b: "LeadTimeForChanges ([lead_release ''v1'' 20 0] ! 0) = 0"
    by blast
  have nloc: "\<not> (case None :: Option option of None \<Rightarrow> False | Some o' \<Rightarrow> IsLocalRepository o')"
    by simp
  from lead_time_from_reported_commits
         [OF two_releases_go_git k i3, where cs = "[]" and visited = ?cs and err = False]
       walk ne nloc
  have c: "LeadTimeForChanges (?rs ! 0) = time_Sub (Date (?rs ! 0)) (When (last ?cs))"
    by auto
  from a b c d two_releases_local one_release_git_failed two_releases_go_git out err walk pr nf
  show ?thesis
    unfolding h h1 by simp
qed

text \<open>
  Claim C7 fails as stated: the only release of a repository has no next-older
  counterpart, and its lead time is the 15 seconds back to the first commit.
\<close>

theorem last_release_lead_time_counterexample:
  "preReleaseCommit_of [source_at ''v1'' 20 ''release v1''] 0 = None
   \<and> next_older_commit [source_at ''v1'' 20 ''release v1''] 0 = None
   \<and> QueryReleases (git_prints (map log_line first_release_history)) walk_tagged_commit
         (Some local_option) [source_at ''v1'' 20 ''release v1'']
       = Inr [\<lparr>Tag = ''v1'', Date = time_Unix 20, LeadTimeForChanges = 15 * Second,
               Result = \<lparr>IsSuccess = True, TimeToRestore = None\<rparr>\<rparr>]"
  by code_simp

text \<open>
  Without the order the last commit reported need not be the oldest: here the lead time
  is 15 seconds although a commit of the range is 17 seconds older than the release.
\<close>

lemma last_reported_need_not_be_oldest:
  "QueryReleases git_unavailable walk_unordered None [source_at ''v1'' 20 ''release v1'']
     = Inr [lead_release ''v1'' 20 15]
   \<and> oldest_time (fst (walk_unordered None (commit_at ''v1'' 20 ''release v1''))) = time_Unix 3"
  by code_simp

section \<open>Properties of the filters\<close>

lemma emitted_releases_pass_filters:
  assumes "QueryReleases git traverseCommits option sources = Inr rs"
    and "k < length rs"
  shows "length rs \<le> length sources
       \<and> \<not> shouldIgnore option (Tag (rs ! k))
       \<and> isInTimeRange option (Date (rs ! k))"
proof -
  let ?f = "\<lambda>i. (tag (sources ! i), When (commit (sources ! i)),
                  lead_time_of git traverseCommits option sources i)"
  have eq: "map facts rs = map ?f (emitted option sources)"
    by (rule QueryReleases_facts [OF assms(1)])
  have "length (map facts rs) = length (map ?f (emitted option sources))"
    by (simp only: eq)
  then have len: "length rs = length (emitted option sources)" by simp
  have "length (emitted option sources) \<le> length [0 ..< length sources]"
    unfolding emitted_def by (rule length_filter_le)
  with len have le: "length rs \<le> length sources" by simp
  have "facts (rs ! k) = map facts rs ! k"
    using assms(2) by simp
  also have "\<dots> = map ?f (emitted option sources) ! k" by (simp only: eq)
  also have "\<dots> = ?f (emitted option sources ! k)"
    using assms(2) len by simp
  finally have f: "facts (rs ! k) = ?f (emitted option sources ! k)" .
  have "emitted option sources ! k \<in> set (emitted option sources)"
    using assms(2) len by simp
  then have "passes option sources (emitted option sources ! k)"
    by (simp add: emitted_def)
  with f le show ?thesis
    by (simp add: facts_def passes_def)
qed

lemma isInTimeRange_open:
  "isInTimeRange (Some o') t \<longleftrightarrow> Since o' < t \<and> t < Until o'"
  by (simp add: isInTimeRange_def time_After_def time_Before_def)

text \<open>
  Claim C5 asks for the half-open window from \<open>Since\<close>, included, to \<open>Until\<close>,
  excluded, and the comments on both fields of \<open>Option\<close> call them inclusive. The
  code compares strictly on both sides: a tag whose commit is dated exactly at
  \<open>Since\<close> is not emitted.
\<close>

theorem release_dated_at_since_is_dropped:
  "isInTimeRange (Some (window 10 100)) (Since (window 10 100)) = False
   \<and> QueryReleases git_unavailable walk_tagged_commit (Some (window 10 100))
         [source_at ''v1'' 10 ''first release'']
       = Inr []"
  by code_simp

section \<open>Properties of the traversals\<close>

text \<open>
  Claim C3, as amended. When the git command fails, the traversal by local git returns
  no fix commit and a lead time of 0. When the command succeeds but gives no timestamp
  to read (no output, an empty last line, or digits that do not fit an int64), the lead
  time is 0 and the fix signal is what the scan of the printed lines found. Neither case
  panics.
\<close>

theorem unreadable_timestamp_absorbed:
  assumes "i < length sources"
    and "timestamp_unreadable (git (local_since sources i) (Hash (commit (sources ! i))))"
  shows "getIsRestoredAndLeadTimeForChangesByLocalGit git sources i option
           = Inr (scanned_fix option (git (local_since sources i) (Hash (commit (sources ! i)))), 0)
       \<and> (git (local_since sources i) (Hash (commit (sources ! i))) = CmdErr
            \<longrightarrow> getIsRestoredAndLeadTimeForChangesByLocalGit git sources i option = Inr (False, 0))"
proof (cases "git (local_since sources i) (Hash (commit (sources ! i)))")
  case CmdErr
  with assms(1) show ?thesis
    by (simp add: getIsRestoredAndLeadTimeForChangesByLocalGit_def scanned_fix_def)
next
  case (Output lines)
  obtain a b where ab: "scan_lines option lines = (a, b)"
    by (cases "scan_lines option lines")
  have a: "a = list_ex (isFixedCommit option) lines"
    using ab scan_lines_fst [of option lines] by simp
  have b: "b = (if lines = [] then [] else last lines)"
    using ab scan_lines_snd [of option lines] by simp
  have "getIsRestoredAndLeadTimeForChangesByLocalGit git sources i option = Inr (a, 0)"
  proof (cases "b = []")
    case True
    with assms(1) Output ab show ?thesis
      by (simp add: getIsRestoredAndLeadTimeForChangesByLocalGit_def)
  next
    case False
    with b have ne: "lines \<noteq> []" and bl: "b = last lines"
      by (auto split: if_splits)
    with assms(2) Output False obtain ds where
      "FindStringSubmatch b = Some ds" and "ParseInt ds = None"
      by (auto simp: timestamp_unreadable_def split: option.splits)
    with assms(1) Output ab False show ?thesis
      by (simp add: getIsRestoredAndLeadTimeForChangesByLocalGit_def)
  qed
  with a Output show ?thesis
    by (simp add: scanned_fix_def)
qed

theorem unreadable_timestamp_absorbed_witness:
  "timestamp_unreadable (git_unavailable Since1900 ''v1'')
   \<and> getIsRestoredAndLeadTimeForChangesByLocalGit git_unavailable
         [source_at ''v1'' 20 ''release v1''] 0 (Some local_option) = Inr (False, 0)
   \<and> timestamp_unreadable (git_prints [overflowing_line] Since1900 ''v1'')
   \<and> getIsRestoredAndLeadTimeForChangesByLocalGit (git_prints [overflowing_line])
         [source_at ''v1'' 20 ''release v1''] 0 (Some local_option) = Inr (True, 0)"
proof -
  have i: "0 < length [source_at ''v1'' 20 ''release v1'']"
    by simp
  have s: "local_since [source_at ''v1'' 20 ''release v1''] 0 = Since1900"
    and h: "Hash (commit ([source_at ''v1'' 20 ''release v1''] ! 0)) = ''v1''"
    by (simp_all add: local_since_def source_at_def)
  have u1: "timestamp_unreadable (git_unavailable
              (local_since [source_at ''v1'' 20 ''release v1''] 0)
              (Hash (commit ([source_at ''v1'' 20 ''release v1''] ! 0))))"
    by (simp add: timestamp_unreadable_def git_unavailable_def)
  have u2: "timestamp_unreadable (git_prints [overflowing_line]
              (local_since [source_at ''v1'' 20 ''release v1''] 0)
              (Hash (commit ([source_at ''v1'' 20 ''release v1''] ! 0))))"
    unfolding s h by code_simp
  have f1: "scanned_fix (Some local_option) (git_unavailable Since1900 ''v1'') = False"
    by (simp add: scanned_fix_def git_unavailable_def)
  have f2: "scanned_fix (Some local_option) (git_prints [overflowing_line] Since1900 ''v1'') = True"
    by code_simp
  from unreadable_timestamp_absorbed
         [of 0 "[source_at ''v1'' 20 ''release v1'']" git_unavailable "Some local_option", OF i u1]
       unreadable_timestamp_absorbed
         [of 0 "[source_at ''v1'' 20 ''release v1'']" "git_prints [overflowing_line]"
            "Some local_option", OF i u2]
       u1 u2
  show ?thesis
    unfolding s h f1 f2 by simp
qed

text \<open>
  Claim C3 fails as stated: the timestamp of the only printed line cannot be parsed, and
  the traversal still reports a fix commit.
\<close>

theorem unparsed_timestamp_counterexample:
  "ParseInt ''9223372036854775808'' = None
   \<and> getIsRestoredAndLeadTimeForChangesByLocalGit (git_prints [overflowing_line])
         [source_at ''v1'' 20 ''release v1''] 0 (Some local_option)
       = Inr (True, 0)"
  by code_simp

text \<open>
  Claim C8 asks the two strategies to agree. The commit tagged \<open>v1\<close> names a fix in
  the body of its message. The git command prints the subject only, so the traversal by
  local git finds no fix commit, while the traversal by go-git matches the whole message
  and finds one.
\<close>

theorem strategies_disagree_on_message_body:
  "log_line body_fix_commit = [CHR 0x22] @ ''20 release v1'' @ [CHR 0x22]
   \<and> getIsRestoredAndLeadTimeForChangesByLocalGit (git_prints [log_line body_fix_commit])
         [\<lparr>tag = ''v1'', commit = body_fix_commit\<rparr>] 0 (Some local_option)
       = Inr (False, 0)
   \<and> getIsRestoredAndLeadTimeForChangesByGoGit walk_tagged_commit
         [\<lparr>tag = ''v1'', commit = body_fix_commit\<rparr>] 0 (Some local_option)
       = Inr (True, 0)
   \<and> getIsRestoredAndLeadTimeForChangesByLocalGit (git_prints [log_line body_fix_commit])
         [\<lparr>tag = ''v1'', commit = body_fix_commit\<rparr>] 0 None
       = Inr (False, 0)
   \<and> getIsRestoredAndLeadTimeForChangesByGoGit walk_tagged_commit
         [\<lparr>tag = ''v1'', commit = body_fix_commit\<rparr>] 0 None
       = Inr (True, 0)"
  by code_simp

section \<open>Restore times\<close>

lemma restore_time_failure: "\<not> snd r \<Longrightarrow> restore_time r older = None"
  by (simp add: restore_time_def)

lemma restore_time_Nil: "restore_time r [] = None"
  by (simp add: restore_time_def)

lemma restore_time_snoc_failure:
  assumes "\<not> snd x"
  shows "restore_time r (older @ [x]) = restore_time r older"
proof (cases "\<forall>y\<in>set older. \<not> snd y")
  case True
  then have "dropWhile (\<lambda>x. \<not> snd x) older = []"
    and "dropWhile (\<lambda>x. \<not> snd x) (older @ [x]) = []"
    using assms by simp_all
  then show ?thesis by (simp add: restore_time_def)
next
  case False
  then obtain y where y: "y \<in> set older" "\<not> \<not> snd y" by auto
  then have "takeWhile (\<lambda>x. \<not> snd x) (older @ [x]) = takeWhile (\<lambda>x. \<not> snd x) older"
    and "dropWhile (\<lambda>x. \<not> snd x) (older @ [x]) = dropWhile (\<lambda>x. \<not> snd x) older @ [x]"
    by (simp_all add: takeWhile_append1 dropWhile_append1)
  moreover have "dropWhile (\<lambda>x. \<not> snd x) older \<noteq> []"
    using y by (auto simp: dropWhile_eq_Nil_conv)
  ultimately show ?thesis by (simp add: restore_time_def)
qed

lemma restore_time_snoc_known:
  assumes "y \<in> set older" and "snd y"
  shows "restore_time r (older @ [x]) = restore_time r older"
proof -
  from assms have "takeWhile (\<lambda>x. \<not> snd x) (older @ [x]) = takeWhile (\<lambda>x. \<not> snd x) older"
    and "dropWhile (\<lambda>x. \<not> snd x) (older @ [x]) = dropWhile (\<lambda>x. \<not> snd x) older @ [x]"
    by (simp_all add: takeWhile_append1 dropWhile_append1)
  moreover have "dropWhile (\<lambda>x. \<not> snd x) older \<noteq> []"
    using assms by (auto simp: dropWhile_eq_Nil_conv)
  ultimately show ?thesis by (simp add: restore_time_def)
qed

lemma restore_time_snoc_closing:
  assumes "snd x" and "\<forall>y\<in>set older. \<not> snd y"
  shows "restore_time r (older @ [x])
           = (if snd r \<and> older \<noteq> [] then Some (time_Sub (fst r) (fst (last older))) else None)"
proof -
  from assms have "takeWhile (\<lambda>x. \<not> snd x) (older @ [x]) = older"
    and "dropWhile (\<lambda>x. \<not> snd x) (older @ [x]) = [x]"
    by (simp_all add: takeWhile_append2 dropWhile_append2)
  then show ?thesis by (simp add: restore_time_def)
qed

lemma restore_time_single: "snd x \<Longrightarrow> restore_time r [x] = None"
  by (simp add: restore_time_def)

lemma nth_in_drop: "k < j \<Longrightarrow> j < length xs \<Longrightarrow> xs ! j \<in> set (drop (Suc k) xs)"
proof -
  assume kj: "k < j" and j: "j < length xs"
  then have "drop (Suc k) xs ! (j - Suc k) = xs ! j" by simp
  moreover have "j - Suc k < length (drop (Suc k) xs)"
    using kj j by simp
  ultimately show ?thesis by (metis nth_mem)
qed

lemma in_drop_nth:
  assumes "y \<in> set (drop (Suc k) xs)"
  shows "\<exists>j. k < j \<and> j < length xs \<and> y = xs ! j"
proof -
  from assms obtain i where i: "i < length (drop (Suc k) xs)" and y: "drop (Suc k) xs ! i = y"
    by (auto simp: in_set_conv_nth)
  then have "Suc k + i < length xs" and "y = xs ! (Suc k + i)" by auto
  then show ?thesis by (intro exI [of _ "Suc k + i"]) simp
qed

lemma key_set_TimeToRestore: "key (set_TimeToRestore r d) = key r"
  by (simp add: key_def set_TimeToRestore_def)

lemma mark_success_streak:
  assumes inv: "streak_inv st"
    and ms: "mark_success st = Inr st1"
  shows "map key (releases st1) = map key (releases st)"
    and "nextSuccessReleaseIndex st1 = int (length (releases st))"
    and "isRestored st1 = isRestored st"
    and "\<forall>k<length (releases st).
           TimeToRestore (Result (releases st1 ! k))
             = restore_time (map key (releases st) ! k)
                 (drop (Suc k) (map key (releases st)) @ [(d, True)])"
proof -
  let ?rs = "releases st"
  let ?ks = "map key ?rs"
  let ?n = "length ?rs"
  let ?x = "(d, True)"
  from inv have A: "\<And>k. k < ?n \<Longrightarrow>
      TimeToRestore (Result (?rs ! k)) = restore_time (?ks ! k) (drop (Suc k) ?ks)"
    by (simp add: streak_inv_def Let_def)
  have "map key (releases st1) = ?ks
      \<and> nextSuccessReleaseIndex st1 = int ?n
      \<and> isRestored st1 = isRestored st
      \<and> (\<forall>k<?n. TimeToRestore (Result (releases st1 ! k))
             = restore_time (?ks ! k) (drop (Suc k) ?ks @ [?x]))"
  proof (cases "?n = 0")
    case True
    with ms show ?thesis
      by (auto simp: mark_success_def Let_def)
  next
    case False
    with inv obtain m where
      nx: "nextSuccessReleaseIndex st = int m" and m: "m < ?n" and sm: "snd (?ks ! m)" and
      fl: "\<And>j. m < j \<Longrightarrow> j < ?n \<Longrightarrow> \<not> snd (?ks ! j)"
      by (auto simp: streak_inv_def Let_def intro: that [of "nat (nextSuccessReleaseIndex st)"])
    show ?thesis
    proof (cases "IsSuccess (Result (?rs ! (?n - 1)))")
      case True
      then have "snd (?ks ! (?n - 1))"
        using False by (simp add: key_def)
      with fl [of "?n - 1"] m False have mlast: "m = ?n - 1"
        by (cases "m < ?n - 1") auto
      from ms True False have st1: "st1 = st\<lparr>nextSuccessReleaseIndex := int ?n\<rparr>"
        by (auto simp: mark_success_def Let_def)
      have "TimeToRestore (Result (?rs ! k))
              = restore_time (?ks ! k) (drop (Suc k) ?ks @ [?x])" if k: "k < ?n" for k
      proof (cases "k < m")
        case True
        with m have "?ks ! m \<in> set (drop (Suc k) ?ks)"
          by (intro nth_in_drop) simp_all
        from restore_time_snoc_known [OF this sm] A [OF k] show ?thesis by simp
      next
        case False
        with k mlast have "drop (Suc k) ?ks = []" by simp
        with A [OF k] show ?thesis
          by (simp add: restore_time_single restore_time_Nil)
      qed
      with st1 show ?thesis by simp
    next
      case last_failed: False
      then have "\<not> snd (?ks ! (?n - 1))"
        using False by (simp add: key_def)
      with sm m have mlt: "m < ?n - 1"
        by (cases "m = ?n - 1") auto
      let ?v = "time_Sub (Date (?rs ! m)) (Date (?rs ! (?n - 1)))"
      from ms last_failed False nx m
      have st1: "st1 = st\<lparr>releases := ?rs[m := set_TimeToRestore (?rs ! m) ?v],
                            nextSuccessReleaseIndex := int ?n\<rparr>"
        by (auto simp: mark_success_def Let_def)
      have keys: "map key (releases st1) = ?ks"
        using st1 m by (simp add: map_update key_set_TimeToRestore list_update_same_conv)
      have "TimeToRestore (Result (releases st1 ! k))
              = restore_time (?ks ! k) (drop (Suc k) ?ks @ [?x])" if k: "k < ?n" for k
      proof -
        consider "k < m" | "k = m" | "m < k" by linarith
        then show ?thesis
        proof cases
          case 1
          with m have "?ks ! m \<in> set (drop (Suc k) ?ks)"
            by (intro nth_in_drop) simp_all
          from restore_time_snoc_known [OF this sm] A [OF k] 1 st1 m show ?thesis by simp
        next
          case 2
          have allf: "\<forall>y\<in>set (drop (Suc m) ?ks). \<not> snd y"
          proof
            fix y assume "y \<in> set (drop (Suc m) ?ks)"
            from in_drop_nth [OF this] obtain j where "m < j" "j < length ?ks" "y = ?ks ! j"
              by blast
            with fl [of j] show "\<not> snd y" by simp
          qed
          have ne: "drop (Suc m) ?ks \<noteq> []"
            using mlt by simp
          have "last (drop (Suc m) ?ks) = last ?ks"
            using mlt by simp
          also have "\<dots> = ?ks ! (length ?ks - 1)"
            using False by (intro last_conv_nth) simp
          finally have la: "last (drop (Suc m) ?ks) = ?ks ! (?n - 1)"
            by simp
          have "restore_time (?ks ! m) (drop (Suc m) ?ks @ [?x])
                  = Some (time_Sub (fst (?ks ! m)) (fst (?ks ! (?n - 1))))"
            using restore_time_snoc_closing [of ?x "drop (Suc m) ?ks" "?ks ! m"] allf ne sm la
            by simp
          moreover have "TimeToRestore (Result (releases st1 ! m)) = Some ?v"
            using st1 m by (simp add: set_TimeToRestore_def)
          ultimately show ?thesis
            using 2 m mlt by (simp add: key_def)
        next
          case 3
          with fl [of k] k have f: "\<not> snd (?ks ! k)" by simp
          from 3 st1 m have "releases st1 ! k = ?rs ! k" by simp
          with A [OF k] f show ?thesis
            by (simp add: restore_time_failure)
        qed
      qed
      with keys st1 show ?thesis by simp
    qed
  qed
  then show "map key (releases st1) = map key (releases st)"
    and "nextSuccessReleaseIndex st1 = int (length (releases st))"
    and "isRestored st1 = isRestored st"
    and "\<forall>k<length (releases st).
           TimeToRestore (Result (releases st1 ! k))
             = restore_time (map key (releases st) ! k)
                 (drop (Suc k) (map key (releases st)) @ [(d, True)])"
    by simp_all
qed

lemma loop_body_streak:
  assumes inv: "streak_inv st"
    and pass: "passes option sources i"
    and body: "loop_body git traverseCommits option sources i st = Inr st'"
  shows "streak_inv st'"
proof -
  let ?d = "When (commit (sources ! i))"
  let ?s = "\<not> isRestored st"
  let ?ks = "map key (releases st)"
  let ?n = "length (releases st)"
  let ?x = "(?d, ?s)"
  from pass body obtain st1 r lt where
    st1: "(if ?s then mark_success st else Inr st) = Inr st1" and
    st': "st' = st1\<lparr>releases := releases st1 @
            [\<lparr>Tag = tag (sources ! i), Date = ?d, LeadTimeForChanges = lt,
              Result = \<lparr>IsSuccess = ?s, TimeToRestore = None\<rparr>\<rparr>],
            isRestored := r\<rparr>"
    by (auto simp: loop_body_def passes_def Let_def split: sum.splits prod.splits)
  from inv have A: "\<And>k. k < ?n \<Longrightarrow>
      TimeToRestore (Result (releases st ! k)) = restore_time (?ks ! k) (drop (Suc k) ?ks)"
    by (simp add: streak_inv_def Let_def)
  have facts: "map key (releases st1) = ?ks
      \<and> (\<forall>k<?n. TimeToRestore (Result (releases st1 ! k))
             = restore_time (?ks ! k) (drop (Suc k) ?ks @ [?x]))
      \<and> (0 \<le> nextSuccessReleaseIndex st1 \<and> nat (nextSuccessReleaseIndex st1) < Suc ?n
           \<and> snd ((?ks @ [?x]) ! nat (nextSuccessReleaseIndex st1))
           \<and> (\<forall>j. nat (nextSuccessReleaseIndex st1) < j \<and> j < Suc ?n
                  \<longrightarrow> \<not> snd ((?ks @ [?x]) ! j)))"
  proof (cases "isRestored st")
    case False
    with st1 have ms: "mark_success st = Inr st1" by simp
    have none: "\<not> (?n < j \<and> j < Suc ?n)" for j
      by arith
    from mark_success_streak(1-3) [OF inv ms] mark_success_streak(4) [OF inv ms, of ?d] False
    show ?thesis
      by (simp add: nth_append none)
  next
    case True
    with st1 have eq: "st1 = st" by simp
    from inv True have n0: "?n \<noteq> 0"
      by (auto simp: streak_inv_def Let_def)
    with inv obtain m where
      nx: "nextSuccessReleaseIndex st = int m" and m: "m < ?n" and sm: "snd (?ks ! m)" and
      fl: "\<And>j. m < j \<Longrightarrow> j < ?n \<Longrightarrow> \<not> snd (?ks ! j)"
      by (auto simp: streak_inv_def Let_def intro: that [of "nat (nextSuccessReleaseIndex st)"])
    have "TimeToRestore (Result (releases st ! k))
            = restore_time (?ks ! k) (drop (Suc k) ?ks @ [?x])" if "k < ?n" for k
      using A [OF that] True by (simp add: restore_time_snoc_failure)
    moreover have "\<not> snd ((?ks @ [?x]) ! j)" if "m < j" and "j < Suc ?n" for j
    proof (cases "j < ?n")
      case True
      with fl [OF that(1)] show ?thesis by (simp add: nth_append)
    next
      case False
      with that have "j = ?n" by simp
      with \<open>isRestored st\<close> show ?thesis by (simp add: nth_append)
    qed
    ultimately show ?thesis
      using eq nx m sm by (simp add: nth_append)
  qed
  then have len1: "length (releases st1) = ?n"
    by (metis length_map)
  have keys': "map key (releases st') = ?ks @ [?x]"
    using st' facts by (simp add: key_def)
  have "TimeToRestore (Result (releases st' ! k))
          = restore_time ((?ks @ [?x]) ! k) (drop (Suc k) (?ks @ [?x]))" if k: "k < Suc ?n" for k
  proof (cases "k < ?n")
    case True
    with facts st' len1 show ?thesis by (simp add: nth_append)
  next
    case False
    with k have "k = ?n" by simp
    with st' len1 show ?thesis by (simp add: nth_append restore_time_Nil)
  qed
  with facts keys' st' len1 show ?thesis
    by (simp add: streak_inv_def Let_def)
qed

lemma loop_streak:
  assumes "streak_inv st"
    and "loop git traverseCommits option sources is st = Inr st'"
  shows "streak_inv st'"
  using assms
proof (induction "is" arbitrary: st)
  case Nil
  then show ?case by simp
next
  case (Cons i "is")
  from Cons.prems obtain st1 where
    body: "loop_body git traverseCommits option sources i st = Inr st1" and
    rest: "loop git traverseCommits option sources is st1 = Inr st'"
    by (auto split: sum.splits)
  show ?case
  proof (cases "passes option sources i")
    case True
    from loop_body_streak [OF Cons.prems(1) True body] rest show ?thesis
      by (rule Cons.IH)
  next
    case False
    with body have "st1 = st" by (simp add: loop_body_skip)
    with Cons.prems(1) rest show ?thesis by (simp add: Cons.IH)
  qed
qed

lemma streak_inv_init: "streak_inv init_state"
  by (simp add: streak_inv_def init_state_def)

text \<open>
  The restore time that \<open>QueryReleases\<close> leaves on each release: it is set on a
  success followed by failures only once an older success has been emitted after them.
\<close>

lemma QueryReleases_TimeToRestore:
  assumes "QueryReleases git traverseCommits option sources = Inr rs"
    and "k < length rs"
  shows "TimeToRestore (Result (rs ! k)) = restore_time (key (rs ! k)) (drop (Suc k) (map key rs))"
proof -
  from assms(1) obtain st where
    l: "loop git traverseCommits option sources [0 ..< length sources] init_state = Inr st" and
    rs: "rs = releases st"
    by (auto simp: QueryReleases_def split: sum.splits)
  from loop_streak [OF streak_inv_init l] assms(2) rs show ?thesis
    by (simp add: streak_inv_def Let_def)
qed

text \<open>
  The index kept by the loop is always inside the slice, so the classifier itself never
  panics; with the traversal by go-git, \<open>QueryReleases\<close> always returns.
\<close>

lemma mark_success_returns:
  assumes "streak_inv st"
  shows "\<exists>st1. mark_success st = Inr st1"
proof (cases "length (releases st) = 0")
  case True
  then show ?thesis by (simp add: mark_success_def Let_def)
next
  case False
  with assms have "0 \<le> nextSuccessReleaseIndex st"
    and "nextSuccessReleaseIndex st < int (length (releases st))"
    by (auto simp: streak_inv_def Let_def)
  then show ?thesis by (simp add: mark_success_def Let_def)
qed

lemma GoGit_returns:
  "i < length sources \<Longrightarrow>
     \<exists>r lt. getIsRestoredAndLeadTimeForChangesByGoGit traverseCommits sources i option = Inr (r, lt)"
  by (simp add: getIsRestoredAndLeadTimeForChangesByGoGit_def Let_def
      split: prod.splits option.splits)

lemma loop_body_returns:
  assumes inv: "streak_inv st"
    and i: "i < length sources"
    and tr: "\<exists>r lt. traversal git traverseCommits sources i option = Inr (r, lt)"
  shows "\<exists>st'. loop_body git traverseCommits option sources i st = Inr st'"
proof -
  from mark_success_returns [OF inv] obtain st1 where "mark_success st = Inr st1" ..
  moreover from tr obtain r lt where "traversal git traverseCommits sources i option = Inr (r, lt)"
    by blast
  ultimately show ?thesis
    by (simp add: loop_body_def Let_def)
qed

lemma loop_returns:
  assumes "streak_inv st"
    and "\<forall>i\<in>set is. i < length sources
           \<and> (\<exists>r lt. traversal git traverseCommits sources i option = Inr (r, lt))"
  shows "\<exists>st'. loop git traverseCommits option sources is st = Inr st'"
  using assms
proof (induction "is" arbitrary: st)
  case Nil
  then show ?case by simp
next
  case (Cons i "is")
  from Cons.prems have "\<exists>st1. loop_body git traverseCommits option sources i st = Inr st1"
    by (intro loop_body_returns) auto
  then obtain st1 where body: "loop_body git traverseCommits option sources i st = Inr st1" ..
  have inv1: "streak_inv st1"
  proof (cases "passes option sources i")
    case True
    from loop_body_streak [OF Cons.prems(1) True body] show ?thesis .
  next
    case False
    with body have "st1 = st" by (simp add: loop_body_skip)
    with Cons.prems(1) show ?thesis by simp
  qed
  from Cons.prems(2) have "\<forall>i\<in>set is. i < length sources
           \<and> (\<exists>r lt. traversal git traverseCommits sources i option = Inr (r, lt))"
    by simp
  from Cons.IH [OF inv1 this] body show ?case by simp
qed

lemma QueryReleases_GoGit_returns:
  assumes "\<not> (case option of None \<Rightarrow> False | Some o' \<Rightarrow> IsLocalRepository o')"
  shows "\<exists>rs. QueryReleases git traverseCommits option sources = Inr rs"
proof -
  have "\<forall>i\<in>set [0 ..< length sources]. i < length sources
           \<and> (\<exists>r lt. traversal git traverseCommits sources i option = Inr (r, lt))"
    using assms GoGit_returns [of _ sources traverseCommits option]
    by (auto simp: traversal_def)
  from loop_returns [OF streak_inv_init this] show ?thesis
    by (auto simp: QueryReleases_def)
qed

text \<open>
  Claim C2 asks for a restore time on every success that is newer than a run of
  failures. In the three-tag repository \<open>v2\<close> is a success and \<open>v1\<close>, the release
  before it, is a failure; the loop ends without meeting an older success, and no
  release carries a restore time.
\<close>

theorem oldest_streak_gets_no_TimeToRestore:
  "QueryReleases git_unavailable walk_tagged_commit None three_tags
     = Inr [released ''v3'' 30 True, released ''v2'' 20 True, released ''v1'' 10 False]
   \<and> IsSuccess (Result (released ''v2'' 20 True))
   \<and> \<not> IsSuccess (Result (released ''v1'' 10 False))
   \<and> TimeToRestore (Result (released ''v2'' 20 True)) = None"
  by code_simp

text \<open>
  Claim C10 asks the aggregate restore time to be the mean of the restore times set on
  the releases. For two tags, the newer one fixing the older one, no restore time is
  set on either release, and the aggregate is the 10 seconds between them.
\<close>

theorem aggregate_counts_unrecorded_streak:
  "QueryReleases git_unavailable walk_tagged_commit None
      [source_at ''v2'' 20 ''hotfix: repair v1'', source_at ''v1'' 10 ''first release'']
     = Inr [released ''v2'' 20 True, released ''v1'' 10 False]
   \<and> map (\<lambda>r. TimeToRestore (Result r)) [released ''v2'' 20 True, released ''v1'' 10 False] = [None, None]
   \<and> getTimeToRestoreServices [released ''v2'' 20 True, released ''v1'' 10 False] = 10 * Second"
  by code_simp

section \<open>Properties of the deployment frequency\<close>

text \<open>
  Claim C4 asks for a frequency of 0 on a window of zero length and never NaN or an
  infinity. A window of zero length holds no release and the division is \<open>0/0\<close>; a
  window of twelve hours has zero whole days, and one release in it gives \<open>1/0\<close>.
\<close>

theorem deployment_frequency_not_finite:
  "QueryReleases git_unavailable walk_tagged_commit (Some (window 50 50)) three_tags = Inr []
   \<and> deploymentFrequency (window 50 50) [] = NaN
   \<and> QueryReleases git_unavailable walk_tagged_commit (Some (window 0 43200))
         [source_at ''v1'' 3600 ''first release'']
       = Inr [released ''v1'' 3600 True]
   \<and> deploymentFrequency (window 0 43200) [released ''v1'' 3600 True] = PosInf"
  by code_simp

lemma deployment_frequency_ten_days:
  "deploymentFrequency (window 0 864000) [released ''v1'' 3600 True] = Finite (1 / 10)"
  by code_simp

end
